theory Spec2Isabelle
  imports Complex_Main "HOL-Library.Multiset"
begin

section \<open>Data model of rtree.go\<close>

text \<open>
  Nodes are mutated in place and refer to each other through pointers (an entry to its
  child, a node to its parent), so the nodes live in an explicit store: a list of nodes,
  a pointer being an index into it (\<open>None\<close> is Go's \<open>nil\<close>).  The struct \<open>Rtree\<close> embeds
  its root node, so \<open>&tree.root\<close> is one fixed address: index 0 of the store.  A node
  made by \<open>&node{...}\<close> or by a copy whose address escapes is appended at the end.

  Coordinates are \<open>float64\<close> in the source; here they are real numbers, so rounding,
  infinities and NaN are outside this development.  Go's \<open>int\<close> fields are \<open>int\<close>:
  the only arithmetic on them is \<open>size++\<close>, once per entry actually held in memory.
  An object is its identity and the rectangle its \<open>Bounds()\<close> returns.
\<close>

type_synonym addr = nat

datatype error = DimError nat nat | NilDeref | IndexRange | SliceBounds

text \<open>
  Modelled from the spec: the type \<open>Rect\<close> is declared in a file that is not among the
  sources at hand.  Section 3: a rectangle is a pair of coordinate vectors, the minimum
  and the maximum corner.
\<close>

record Rect =
  rmin :: "real list"
  rmax :: "real list"

datatype Spatial = Spatial (ident: nat) (Bounds: Rect)

record entry =
  bb :: Rect
  child :: "addr option"
  obj :: "Spatial option"

record node =
  parent :: "addr option"
  leaf :: bool
  entries :: "entry list"

record Rtree =
  Dim :: int
  MinChildren :: int
  MaxChildren :: int
  store :: "node list"
  size_tree :: int

abbreviation (input) root_addr :: addr where
  "root_addr \<equiv> 0"

text \<open>
  Following a pointer.  Every pointer the source holds is nil or the address of a live
  node; an index beyond the store is treated like nil.
\<close>

definition deref :: "node list \<Rightarrow> addr option \<Rightarrow> error + node" where
  "deref h n = (case n of None \<Rightarrow> Inl NilDeref
                | Some a \<Rightarrow> if a < length h then Inr (h ! a) else Inl NilDeref)"

section \<open>Geometry\<close>

text \<open>
  The functions \<open>size\<close>, \<open>boundingBox\<close> and \<open>boundingBoxN\<close> are called by rtree.go and
  defined in a file that is not among the sources at hand; they follow section 4.1 of
  the specification.
\<close>

text \<open>
  Modelled from the spec: \<open>Rect.size\<close>, the product of \<open>max[i] - min[i]\<close> over the axes.
\<close>

definition size_rect :: "Rect \<Rightarrow> real" where
  "size_rect r = prod_list (map (\<lambda>(a, b). b - a) (zip (rmin r) (rmax r)))"

text \<open>
  Modelled from the spec: the union of two rectangles, the smallest rectangle that
  contains both, computed per axis as the minimum and the maximum.
\<close>

definition rect_union :: "Rect \<Rightarrow> Rect \<Rightarrow> Rect" where
  "rect_union r1 r2 =
     \<lparr>rmin = map (\<lambda>(a, b). min a b) (zip (rmin r1) (rmin r2)),
      rmax = map (\<lambda>(a, b). max a b) (zip (rmax r1) (rmax r2))\<rparr>"

text \<open>
  Modelled from the spec: \<open>boundingBox\<close>, the union, which fails with a dimensionality
  error when the operands' dimensions differ.  rtree.go uses the result as a plain
  value, so the failure is a panic.
\<close>

definition boundingBox :: "Rect \<Rightarrow> Rect \<Rightarrow> error + Rect" where
  "boundingBox r1 r2 =
     (if length (rmin r1) \<noteq> length (rmin r2)
      then Inl (DimError (length (rmin r1)) (length (rmin r2)))
      else Inr (rect_union r1 r2))"

text \<open>
  Modelled from the spec: \<open>boundingBoxN\<close>, the fold of the union over a non-empty
  sequence of rectangles; \<open>unionAll\<close> is the fold from an accumulated rectangle.
\<close>

fun unionAll :: "Rect \<Rightarrow> Rect list \<Rightarrow> error + Rect" where
  "unionAll acc [] = Inr acc"
| "unionAll acc (r # rs) =
     (case boundingBox acc r of Inl err \<Rightarrow> Inl err | Inr b \<Rightarrow> unionAll b rs)"

fun boundingBoxN :: "Rect list \<Rightarrow> error + Rect" where
  "boundingBoxN [] = Inl IndexRange"
| "boundingBoxN (r # rs) = unionAll r rs"

text \<open>\<open>math.MaxFloat64\<close>, the largest finite \<open>float64\<close>.\<close>

definition MaxFloat64 :: real where
  "MaxFloat64 = 2 ^ 1024 - 2 ^ 971"

section \<open>Construction, Size, Depth\<close>

definition NewTree :: "int \<Rightarrow> int \<Rightarrow> int \<Rightarrow> Rtree" where
  "NewTree d mn mx =
     \<lparr>Dim = d, MinChildren = mn, MaxChildren = mx,
      store = [\<lparr>parent = None, leaf = True, entries = []\<rparr>],
      size_tree = 0\<rparr>"

definition Size :: "Rtree \<Rightarrow> int" where
  "Size tree = size_tree tree"

text \<open>
  \<open>nodeDepth\<close> calls itself inside a loop over the entries.  \<open>nodeDepthSum h ns\<close> is that
  loop: the sum of \<open>nodeDepth\<close> over the node pointers \<open>ns\<close>, left to right.  On a store
  with a cycle the source does not return; that is the value \<open>None\<close>.
\<close>

partial_function (option) nodeDepthSum :: "node list \<Rightarrow> addr option list \<Rightarrow> (error + int) option" where
  "nodeDepthSum h ns =
     (case ns of
        [] \<Rightarrow> Some (Inr 0)
      | n # rest \<Rightarrow>
          (case deref h n of
             Inl err \<Rightarrow> Some (Inl err)
           | Inr nd \<Rightarrow>
               Option.bind
                 (if leaf nd then Some (Inr 1) else nodeDepthSum h (map child (entries nd)))
                 (\<lambda>r1. case r1 of
                    Inl err \<Rightarrow> Some (Inl err)
                  | Inr d1 \<Rightarrow>
                      Option.bind (nodeDepthSum h rest)
                        (\<lambda>r2. case r2 of
                           Inl err \<Rightarrow> Some (Inl err)
                         | Inr d2 \<Rightarrow> Some (Inr (d1 + d2))))))"

declare nodeDepthSum.simps [code]

definition nodeDepth :: "node list \<Rightarrow> addr option \<Rightarrow> (error + int) option" where
  "nodeDepth h n = nodeDepthSum h [n]"

definition Depth :: "Rtree \<Rightarrow> (error + int) option" where
  "Depth tree = nodeDepth (store tree) (Some root_addr)"

section \<open>Split engine\<close>

definition computeBoundingBox :: "node \<Rightarrow> error + Rect" where
  "computeBoundingBox n = boundingBoxN (map bb (entries n))"

text \<open>
  \<open>pickSeeds\<close>: the loop state is \<open>(maxWastedSpace, left, right)\<close>; the results are
  named, so they start at 0.  \<open>pickSeedsInner\<close> is the loop over \<open>n.entries[i+1:]\<close>
  for the entry \<open>e1\<close> at index \<open>i\<close>, with \<open>j\<close> the index in that slice.
  The wasted space is computed exactly here; in \<open>float64\<close> it is rounded, so that pairs
  of different wasted space can compare equal.
\<close>

fun pickSeedsInner ::
  "entry \<Rightarrow> nat \<Rightarrow> entry list \<Rightarrow> nat \<Rightarrow> real \<times> nat \<times> nat \<Rightarrow> error + real \<times> nat \<times> nat" where
  "pickSeedsInner e1 i [] j st = Inr st"
| "pickSeedsInner e1 i (e2 # es) j (maxWastedSpace, l, r) =
     (case boundingBox (bb e1) (bb e2) of
        Inl err \<Rightarrow> Inl err
      | Inr b \<Rightarrow>
          (let d = size_rect b - size_rect (bb e1) - size_rect (bb e2)
           in if d > maxWastedSpace
              then pickSeedsInner e1 i es (j + 1) (d, i, j + i + 1)
              else pickSeedsInner e1 i es (j + 1) (maxWastedSpace, l, r)))"

fun pickSeedsOuter ::
  "entry list \<Rightarrow> nat \<Rightarrow> real \<times> nat \<times> nat \<Rightarrow> error + real \<times> nat \<times> nat" where
  "pickSeedsOuter [] i st = Inr st"
| "pickSeedsOuter (e1 # es) i st =
     (case pickSeedsInner e1 i es 0 st of
        Inl err \<Rightarrow> Inl err
      | Inr st' \<Rightarrow> pickSeedsOuter es (i + 1) st')"

definition pickSeeds :: "node \<Rightarrow> error + nat \<times> nat" where
  "pickSeeds n =
     (case pickSeedsOuter (entries n) 0 (- 1, 0, 0) of
        Inl err \<Rightarrow> Inl err
      | Inr (maxWastedSpace, l, r) \<Rightarrow> Inr (l, r))"

fun pickNextLoop ::
  "Rect \<Rightarrow> Rect \<Rightarrow> entry list \<Rightarrow> nat \<Rightarrow> real \<times> nat \<Rightarrow> error + real \<times> nat" where
  "pickNextLoop leftBB rightBB [] i st = Inr st"
| "pickNextLoop leftBB rightBB (e # es) i (maxDiff, next) =
     (case boundingBox leftBB (bb e) of
        Inl err \<Rightarrow> Inl err
      | Inr b1 \<Rightarrow>
          (case boundingBox rightBB (bb e) of
             Inl err \<Rightarrow> Inl err
           | Inr b2 \<Rightarrow>
               (let d1 = size_rect b1 - size_rect leftBB;
                    d2 = size_rect b2 - size_rect rightBB;
                    d = \<bar>d1 - d2\<bar>
                in if d > maxDiff
                   then pickNextLoop leftBB rightBB es (i + 1) (d, i)
                   else pickNextLoop leftBB rightBB es (i + 1) (maxDiff, next))))"

definition pickNext :: "node \<Rightarrow> node \<Rightarrow> entry list \<Rightarrow> error + nat" where
  "pickNext left right es =
     (case computeBoundingBox left of
        Inl err \<Rightarrow> Inl err
      | Inr leftBB \<Rightarrow>
          (case computeBoundingBox right of
             Inl err \<Rightarrow> Inl err
           | Inr rightBB \<Rightarrow>
               (case pickNextLoop leftBB rightBB es 0 (- 1, 0) of
                  Inl err \<Rightarrow> Inl err
                | Inr (maxDiff, next) \<Rightarrow> Inr next)))"

definition assign :: "entry \<Rightarrow> node \<Rightarrow> node" where
  "assign e grp = grp\<lparr>entries := entries grp @ [e]\<rparr>"

definition assignGroup :: "entry \<Rightarrow> node \<Rightarrow> node \<Rightarrow> error + node \<times> node" where
  "assignGroup e left right =
     (case computeBoundingBox left of
        Inl err \<Rightarrow> Inl err
      | Inr leftBB \<Rightarrow>
     (case computeBoundingBox right of
        Inl err \<Rightarrow> Inl err
      | Inr rightBB \<Rightarrow>
     (case boundingBox leftBB (bb e) of
        Inl err \<Rightarrow> Inl err
      | Inr leftEnlarged \<Rightarrow>
     (case boundingBox rightBB (bb e) of
        Inl err \<Rightarrow> Inl err
      | Inr rightEnlarged \<Rightarrow>
          (let leftDiff = size_rect leftEnlarged - size_rect leftBB;
               rightDiff = size_rect rightEnlarged - size_rect rightBB
           in if leftDiff - rightDiff < 0 then Inr (assign e left, right)
              else if leftDiff - rightDiff > 0 then Inr (left, assign e right)
              else if size_rect leftBB - size_rect rightBB < 0 then Inr (assign e left, right)
              else if size_rect leftBB - size_rect rightBB > 0 then Inr (left, assign e right)
              else if int (length (entries left)) - int (length (entries right)) \<le> 0
                   then Inr (assign e left, right)
              else Inr (left, assign e right))))))"

text \<open>
  The loop of \<open>split\<close> that hands out \<open>remaining\<close>.  \<open>remaining[next]\<close> panics when
  \<open>next\<close> is out of range; removing index \<open>next\<close> is
  \<open>append(remaining[:next], remaining[next+1:]...)\<close>.
\<close>

function distribute ::
  "int \<Rightarrow> node \<Rightarrow> node \<Rightarrow> entry list \<Rightarrow> error + node \<times> node" where
  "distribute minGroupSize left right remaining =
     (if remaining = [] then Inr (left, right)
      else
        (case pickNext left right remaining of
           Inl err \<Rightarrow> Inl err
         | Inr next \<Rightarrow>
             if \<not> next < length remaining then Inl IndexRange
             else
               (let e = remaining ! next;
                    remaining' = take next remaining @ drop (next + 1) remaining
                in if int (length remaining) + int (length (entries left)) \<le> minGroupSize
                   then distribute minGroupSize (assign e left) right remaining'
                   else if int (length remaining) + int (length (entries right)) \<le> minGroupSize
                   then distribute minGroupSize left (assign e right) remaining'
                   else
                     (case assignGroup e left right of
                        Inl err \<Rightarrow> Inl err
                      | Inr (left', right') \<Rightarrow>
                          distribute minGroupSize left' right' remaining'))))"
  by pat_completeness auto
termination
  by (relation "measure (\<lambda>(m, l, r, remaining). length remaining)") auto

declare distribute.simps [simp del]

text \<open>
  \<open>split\<close>.  The seeds are copied out of \<open>n.entries\<close> first.  The two \<open>append\<close> calls that
  build \<open>remaining\<close> write into the backing array of \<open>n.entries\<close>, each element moving
  to a lower index than the one it is read from, so \<open>remaining\<close> holds the entries
  other than the two seeds, in their order.  After that \<open>left.entries\<close> and the new
  node's entries are fresh slices, so the loop works on values.  \<open>n.entries[l]\<close> and
  \<open>n.entries[r]\<close> panic out of range and the slice \<open>n.entries[l+1:r]\<close> panics unless
  \<open>l+1 \<le> r\<close>.  The left node is \<open>n\<close> itself, the right node is new.
\<close>

definition split_node :: "node list \<Rightarrow> addr option \<Rightarrow> int \<Rightarrow> error + node list \<times> addr \<times> addr" where
  "split_node h n minGroupSize =
     (case n of
        None \<Rightarrow> Inl NilDeref
      | Some a \<Rightarrow>
     (case deref h n of
        Inl err \<Rightarrow> Inl err
      | Inr nd \<Rightarrow>
     (case pickSeeds nd of
        Inl err \<Rightarrow> Inl err
      | Inr (l, r) \<Rightarrow>
          if \<not> (l < length (entries nd) \<and> r < length (entries nd)) then Inl IndexRange
          else if \<not> l + 1 \<le> r then Inl SliceBounds
          else
            (let leftSeed = entries nd ! l;
                 rightSeed = entries nd ! r;
                 remaining = take l (entries nd) @ drop (l + 1) (take r (entries nd))
                             @ drop (r + 1) (entries nd)
             in case distribute minGroupSize (nd\<lparr>entries := [leftSeed]\<rparr>)
                       \<lparr>parent = parent nd, leaf = leaf nd, entries = [rightSeed]\<rparr> remaining of
                  Inl err \<Rightarrow> Inl err
                | Inr (left, right) \<Rightarrow> Inr (h[a := left] @ [right], a, length h)))))"

section \<open>Insertion engine\<close>

text \<open>
  The loop of \<open>chooseLeaf\<close> over \<open>n.entries\<close>.  \<open>chosen\<close> starts as the zero entry, whose
  \<open>bb\<close> and \<open>child\<close> are nil: that is \<open>None\<close> here, and \<open>chosen.bb.size()\<close> on it is a
  nil dereference.  Go evaluates \<open>||\<close> and \<open>&&\<close> left to right and stops early.
  The subtraction and the comparisons are exact here.  In \<open>float64\<close> two different
  enlargements can round to one value, and a size above \<open>math.MaxFloat64\<close> is \<open>+Inf\<close>;
  such a size is here a real number above \<open>MaxFloat64\<close>, which takes the same branches
  of the loop (neither below nor equal to the start value).
\<close>

fun chooseEntry :: "Spatial \<Rightarrow> entry list \<Rightarrow> real \<Rightarrow> entry option \<Rightarrow> error + entry option" where
  "chooseEntry ob [] diff chosen = Inr chosen"
| "chooseEntry ob (e # es) diff chosen =
     (case boundingBox (bb e) (Bounds ob) of
        Inl err \<Rightarrow> Inl err
      | Inr b \<Rightarrow>
          (let d = size_rect b - size_rect (bb e)
           in if d < diff then chooseEntry ob es d (Some e)
              else if d = diff then
                (case chosen of
                   None \<Rightarrow> Inl NilDeref
                 | Some c \<Rightarrow>
                     if size_rect (bb e) < size_rect (bb c)
                     then chooseEntry ob es d (Some e)
                     else chooseEntry ob es diff chosen)
              else chooseEntry ob es diff chosen))"

partial_function (option) chooseLeaf :: "node list \<Rightarrow> addr option \<Rightarrow> Spatial \<Rightarrow> (error + addr option) option" where
  "chooseLeaf h n ob =
     (case deref h n of
        Inl err \<Rightarrow> Some (Inl err)
      | Inr nd \<Rightarrow>
          if leaf nd then Some (Inr n)
          else
            (case chooseEntry ob (entries nd) MaxFloat64 None of
               Inl err \<Rightarrow> Some (Inl err)
             | Inr chosen \<Rightarrow> chooseLeaf h (Option.bind chosen child) ob))"

declare chooseLeaf.simps [code]

text \<open>
  \<open>getEntry\<close> returns a pointer to an element of \<open>n.parent.entries\<close>: the parent's
  address and the index, or nil when no entry of the parent has \<open>n\<close> as its child.
\<close>

fun findChild :: "entry list \<Rightarrow> addr option \<Rightarrow> nat \<Rightarrow> nat option" where
  "findChild [] n i = None"
| "findChild (e # es) n i = (if child e = n then Some i else findChild es n (i + 1))"

definition getEntry :: "node list \<Rightarrow> addr option \<Rightarrow> error + (addr \<times> nat) option" where
  "getEntry h n =
     (case deref h n of
        Inl err \<Rightarrow> Inl err
      | Inr nd \<Rightarrow>
          (case parent nd of
             None \<Rightarrow> Inl NilDeref
           | Some pa \<Rightarrow>
               (case deref h (Some pa) of
                  Inl err \<Rightarrow> Inl err
                | Inr pn \<Rightarrow>
                    (case findChild (entries pn) n 0 of
                       None \<Rightarrow> Inr None
                     | Some i \<Rightarrow> Inr (Some (pa, i))))))"

definition set_bb :: "node list \<Rightarrow> addr \<Rightarrow> nat \<Rightarrow> Rect \<Rightarrow> node list" where
  "set_bb h pa i box =
     h[pa := (h ! pa)\<lparr>entries := (entries (h ! pa))[i := (entries (h ! pa) ! i)\<lparr>bb := box\<rparr>]\<rparr>]"

definition append_entry :: "node list \<Rightarrow> addr \<Rightarrow> entry \<Rightarrow> node list" where
  "append_entry h a e = h[a := (h ! a)\<lparr>entries := entries (h ! a) @ [e]\<rparr>]"

text \<open>
  \<open>adjustTree\<close> climbs through the parent pointers; on a cyclic store it does not
  return (\<open>None\<close>).  In \<open>n.getEntry().bb = n.computeBoundingBox()\<close> both calls are made
  before the store through the returned pointer, which panics when it is nil.
\<close>

partial_function (option) adjustTree ::
  "Rtree \<Rightarrow> addr option \<Rightarrow> addr option \<Rightarrow> (error + Rtree \<times> addr option \<times> addr option) option" where
  "adjustTree tree n nn =
     (if n = Some root_addr then Some (Inr (tree, n, nn))
      else
        (case getEntry (store tree) n of
           Inl err \<Rightarrow> Some (Inl err)
         | Inr e \<Rightarrow>
        (case deref (store tree) n of
           Inl err \<Rightarrow> Some (Inl err)
         | Inr nd \<Rightarrow>
        (case computeBoundingBox nd of
           Inl err \<Rightarrow> Some (Inl err)
         | Inr box \<Rightarrow>
        (case e of
           None \<Rightarrow> Some (Inl NilDeref)
         | Some (pa, i) \<Rightarrow>
             (let h1 = set_bb (store tree) pa i box
              in case nn of
                   None \<Rightarrow> adjustTree (tree\<lparr>store := h1\<rparr>) (parent nd) None
                 | Some b \<Rightarrow>
                     (case deref h1 nn of
                        Inl err \<Rightarrow> Some (Inl err)
                      | Inr nnd \<Rightarrow>
                     (case computeBoundingBox nnd of
                        Inl err \<Rightarrow> Some (Inl err)
                      | Inr nbox \<Rightarrow>
                          (let h2 = append_entry h1 pa \<lparr>bb = nbox, child = nn, obj = None\<rparr>
                           in if int (length (entries (h2 ! pa))) > MaxChildren tree
                              then
                                (case split_node h2 (parent nd) (MinChildren tree) of
                                   Inl err \<Rightarrow> Some (Inl err)
                                 | Inr (h3, l, r) \<Rightarrow>
                                     adjustTree (tree\<lparr>store := h3\<rparr>) (Some l) (Some r))
                              else adjustTree (tree\<lparr>store := h2\<rparr>) (parent nd) None)))))))))"

declare adjustTree.simps [code]

text \<open>
  \<open>Insert\<close>.  \<open>oldRoot := *root\<close> copies the root node to a new address, which the new
  root's first entry points to; the new root is written to \<open>tree.root\<close>, address 0, with
  \<open>leaf\<close> left at its zero value.
\<close>

definition growRoot :: "Rtree \<Rightarrow> addr option \<Rightarrow> addr \<Rightarrow> error + Rtree" where
  "growRoot tree rootp splitRoot =
     (case deref (store tree) rootp of
        Inl err \<Rightarrow> Inl err
      | Inr oldRoot \<Rightarrow>
     (case computeBoundingBox oldRoot of
        Inl err \<Rightarrow> Inl err
      | Inr box1 \<Rightarrow>
     (case deref (store tree) (Some splitRoot) of
        Inl err \<Rightarrow> Inl err
      | Inr srn \<Rightarrow>
     (case computeBoundingBox srn of
        Inl err \<Rightarrow> Inl err
      | Inr box2 \<Rightarrow>
          (let a = length (store tree);
               h1 = store tree @ [oldRoot];
               h2 = h1[root_addr :=
                      \<lparr>parent = None, leaf = False,
                       entries = [\<lparr>bb = box1, child = Some a, obj = None\<rparr>,
                                  \<lparr>bb = box2, child = Some splitRoot, obj = None\<rparr>]\<rparr>];
               h3 = h2[a := (h2 ! a)\<lparr>parent := Some root_addr\<rparr>];
               h4 = h3[splitRoot := (h3 ! splitRoot)\<lparr>parent := Some root_addr\<rparr>]
           in Inr (tree\<lparr>store := h4\<rparr>))))))"

definition Insert :: "Rtree \<Rightarrow> Spatial \<Rightarrow> (error + Rtree) option" where
  "Insert tree ob =
     (case chooseLeaf (store tree) (Some root_addr) ob of
        None \<Rightarrow> None
      | Some (Inl err) \<Rightarrow> Some (Inl err)
      | Some (Inr None) \<Rightarrow> Some (Inl NilDeref)
      | Some (Inr (Some lf)) \<Rightarrow>
          (let h1 = append_entry (store tree) lf \<lparr>bb = Bounds ob, child = None, obj = Some ob\<rparr>
           in case (if int (length (entries (h1 ! lf))) > MaxChildren tree
                    then (case split_node h1 (Some lf) (MinChildren tree) of
                            Inl err \<Rightarrow> Inl err
                          | Inr (h2, l, r) \<Rightarrow> Inr (h2, Some l, Some r))
                    else Inr (h1, Some lf, None)) of
                Inl err \<Rightarrow> Some (Inl err)
              | Inr (h2, lf', sp) \<Rightarrow>
                  (case adjustTree (tree\<lparr>store := h2\<rparr>) lf' sp of
                     None \<Rightarrow> None
                   | Some (Inl err) \<Rightarrow> Some (Inl err)
                   | Some (Inr (tree', rootp, None)) \<Rightarrow>
                       Some (Inr (tree'\<lparr>size_tree := size_tree tree' + 1\<rparr>))
                   | Some (Inr (tree', rootp, Some splitRoot)) \<Rightarrow>
                       (case growRoot tree' rootp splitRoot of
                          Inl err \<Rightarrow> Some (Inl err)
                        | Inr tree'' \<Rightarrow>
                            Some (Inr (tree''\<lparr>size_tree := size_tree tree'' + 1\<rparr>))))))"

section \<open>Deletion engine\<close>

text \<open>\<open>Delete\<close> is \<open>return false, nil\<close>: the tree is untouched, \<open>ok\<close> is false, \<open>err\<close> is nil.\<close>

definition Delete :: "Rtree \<Rightarrow> Spatial \<Rightarrow> Rtree \<times> bool \<times> error option" where
  "Delete tree ob = (tree, False, None)"

section \<open>Sequences of calls\<close>

text \<open>
  A caller's sequence of \<open>Insert\<close> and \<open>Delete\<close> calls.  Beside the tree, \<open>run\<close> counts
  the Inserts that returned (the only error \<open>Insert\<close> returns is nil) and the Deletes
  that returned \<open>ok = true\<close>.  A panic ends the run, as it ends the program.
\<close>

datatype op = OpInsert Spatial | OpDelete Spatial

fun run :: "op list \<Rightarrow> Rtree \<times> nat \<times> nat \<Rightarrow> (error + Rtree \<times> nat \<times> nat) option" where
  "run [] st = Some (Inr st)"
| "run (OpInsert ob # ops) (tree, n, k) =
     (case Insert tree ob of
        None \<Rightarrow> None
      | Some (Inl err) \<Rightarrow> Some (Inl err)
      | Some (Inr tree') \<Rightarrow> run ops (tree', n + 1, k))"
| "run (OpDelete ob # ops) (tree, n, k) =
     (case Delete tree ob of
        (tree', ok, err) \<Rightarrow> run ops (tree', n, if ok then k + 1 else k))"

section \<open>Properties named by the specification\<close>

text \<open>
  \<open>levels h n d\<close>: the node \<open>n\<close> is the top of \<open>d\<close> levels of nodes, every leaf below it
  being exactly \<open>d\<close> levels down (a leaf alone is one level).
\<close>

fun levels :: "node list \<Rightarrow> addr option \<Rightarrow> nat \<Rightarrow> bool" where
  "levels h n 0 = False"
| "levels h n (Suc d) =
     (case deref h n of
        Inl err \<Rightarrow> False
      | Inr nd \<Rightarrow>
          if leaf nd then d = 0
          else 0 < d \<and> list_all (\<lambda>e. levels h (child e) d) (entries nd))"

text \<open>
  The enlargement of a box \<open>r\<close> by a box \<open>b\<close> in the words of the specification:
  \<open>size(union(r, b)) - size(r)\<close>; and the wasted space of a pair of boxes.
\<close>

definition enlargement :: "Rect \<Rightarrow> Rect \<Rightarrow> real" where
  "enlargement r b = size_rect (rect_union r b) - size_rect r"

definition wastedSpace :: "Rect \<Rightarrow> Rect \<Rightarrow> real" where
  "wastedSpace r1 r2 = size_rect (rect_union r1 r2) - size_rect r1 - size_rect r2"

section \<open>Example objects and trees\<close>

text \<open>
  \<open>pt i\<close> is the point \<open>i\<close> on a line, \<open>sq i\<close> the square from (0,0) to (2,2) (every
  \<open>sq i\<close> has the same bounds), \<open>cube\<close> a box in three dimensions.
\<close>

definition pt :: "nat \<Rightarrow> Spatial" where
  "pt i = Spatial i \<lparr>rmin = [real i], rmax = [real i]\<rparr>"

definition sq :: "nat \<Rightarrow> Spatial" where
  "sq i = Spatial i \<lparr>rmin = [0, 0], rmax = [2, 2]\<rparr>"

definition cube :: Spatial where
  "cube = Spatial 0 \<lparr>rmin = [0, 0, 0], rmax = [1, 1, 1]\<rparr>"

text \<open>
  \<open>wide\<close> is an interval on the line whose two ends, \<open>-2^1023\<close> and \<open>2^1023\<close>, are
  finite \<open>float64\<close> values and whose length \<open>2^1024\<close> is above \<open>math.MaxFloat64\<close>.
\<close>

definition wide :: Spatial where
  "wide = Spatial 100 \<lparr>rmin = [- (2 ^ 1023)], rmax = [2 ^ 1023]\<rparr>"

definition objEntry :: "Spatial \<Rightarrow> entry" where
  "objEntry ob = \<lparr>bb = Bounds ob, child = None, obj = Some ob\<rparr>"

definition nodeEntry :: "real \<Rightarrow> real \<Rightarrow> addr \<Rightarrow> entry" where
  "nodeEntry lo hi c = \<lparr>bb = \<lparr>rmin = [lo], rmax = [hi]\<rparr>, child = Some c, obj = None\<rparr>"

definition leafNode :: "nat list \<Rightarrow> node" where
  "leafNode is = \<lparr>parent = Some root_addr, leaf = True, entries = map (\<lambda>i. objEntry (pt i)) is\<rparr>"

text \<open>The tree after inserting the points 0 to 8 into \<open>NewTree 1 2 4\<close>: three leaves.\<close>

definition t9 :: Rtree where
  "t9 = \<lparr>Dim = 1, MinChildren = 2, MaxChildren = 4,
          store =
            [\<lparr>parent = None, leaf = False,
              entries = [nodeEntry 0 2 2, nodeEntry 3 5 1, nodeEntry 6 8 3]\<rparr>,
             leafNode [3, 4, 5], leafNode [0, 1, 2], leafNode [7, 6, 8]],
          size_tree = 9\<rparr>"

text \<open>
  The tree after inserting the points 0 to 13: the fourteenth Insert splits a leaf and
  then the root.  The root's children are the nodes 7 and 6; the leaves 1 to 5 still have
  address 0 as their parent.
\<close>

definition t14 :: Rtree where
  "t14 = \<lparr>Dim = 1, MinChildren = 2, MaxChildren = 4,
           store =
             [\<lparr>parent = None, leaf = False, entries = [nodeEntry 0 8 7, nodeEntry 9 13 6]\<rparr>,
              leafNode [3, 4, 5], leafNode [0, 1, 2], leafNode [6, 7, 8], leafNode [9, 10, 11],
              leafNode [13, 12],
              \<lparr>parent = Some root_addr, leaf = False,
               entries = [nodeEntry 12 13 5, nodeEntry 9 11 4]\<rparr>,
              \<lparr>parent = Some root_addr, leaf = False,
               entries = [nodeEntry 0 2 2, nodeEntry 3 5 1, nodeEntry 6 8 3]\<rparr>],
           size_tree = 14\<rparr>"

text \<open>
  \<open>same_config t t'\<close>: the fields of the tree other than the nodes are the same.
  \<open>adjust_ok t y\<close>: a result \<open>y\<close> of \<open>adjustTree\<close> on \<open>t\<close>, when it is not a panic, keeps
  those fields and returns the root's address as its first pointer.
\<close>

definition same_config :: "Rtree \<Rightarrow> Rtree \<Rightarrow> bool" where
  "same_config t t' \<longleftrightarrow> size_tree t' = size_tree t \<and> Dim t' = Dim t
     \<and> MinChildren t' = MinChildren t \<and> MaxChildren t' = MaxChildren t"

definition adjust_ok :: "Rtree \<Rightarrow> error + Rtree \<times> addr option \<times> addr option \<Rightarrow> bool" where
  "adjust_ok t y =
     (case y of Inl err \<Rightarrow> True | Inr (t', r, s) \<Rightarrow> same_config t t' \<and> r = Some root_addr)"

text \<open>
  The structural invariant of the specification, for the subtree below the node \<open>n\<close> of
  a store \<open>h\<close> and the branching factors \<open>mn\<close> and \<open>mx\<close>: every leaf is \<open>d\<close> levels
  down; every node below \<open>n\<close> holds between \<open>mn\<close> and \<open>mx\<close> entries; the box of an
  entry of a leaf is its object's bounds, and the box of an entry of an internal node is
  what \<open>computeBoundingBox\<close> gives for its child.
\<close>

definition leafEntry :: "entry \<Rightarrow> bool" where
  "leafEntry e = (case obj e of None \<Rightarrow> False | Some ob \<Rightarrow> bb e = Bounds ob)"

definition in_bounds :: "int \<Rightarrow> int \<Rightarrow> node \<Rightarrow> bool" where
  "in_bounds mn mx nd \<longleftrightarrow> mn \<le> int (length (entries nd)) \<and> int (length (entries nd)) \<le> mx"

fun subtree_ok :: "int \<Rightarrow> int \<Rightarrow> node list \<Rightarrow> addr option \<Rightarrow> nat \<Rightarrow> bool" where
  "subtree_ok mn mx h n 0 = False"
| "subtree_ok mn mx h n (Suc d) =
     (case deref h n of
        Inl err \<Rightarrow> False
      | Inr nd \<Rightarrow>
          if leaf nd then d = 0 \<and> list_all leafEntry (entries nd)
          else 0 < d \<and>
            list_all
              (\<lambda>e. case deref h (child e) of
                     Inl err \<Rightarrow> False
                   | Inr c \<Rightarrow> in_bounds mn mx c \<and> computeBoundingBox c = Inr (bb e)
                              \<and> subtree_ok mn mx h (child e) d)
              (entries nd))"

definition structural_invariant :: "Rtree \<Rightarrow> nat \<Rightarrow> bool" where
  "structural_invariant t d = subtree_ok (MinChildren t) (MaxChildren t) (store t) (Some root_addr) d"

text \<open>
  The three shapes of a tree that successful Inserts reach, with the parent pointers
  the source leaves behind: a root that is a leaf; a root over leaves whose parent is
  the root; and a root over inner nodes over leaves whose parent pointer is still the
  root's address.
\<close>

definition leaf_ok :: "int \<Rightarrow> int \<Rightarrow> node \<Rightarrow> bool" where
  "leaf_ok mn mx nd \<longleftrightarrow>
     leaf nd \<and> parent nd = Some root_addr \<and> in_bounds mn mx nd \<and> list_all leafEntry (entries nd)"

definition leaf_child :: "int \<Rightarrow> int \<Rightarrow> node list \<Rightarrow> entry \<Rightarrow> bool" where
  "leaf_child mn mx h e =
     (case child e of
        None \<Rightarrow> False
      | Some a \<Rightarrow> 0 < a \<and> a < length h \<and> leaf_ok mn mx (h ! a)
                  \<and> computeBoundingBox (h ! a) = Inr (bb e))"

definition inner_child :: "int \<Rightarrow> int \<Rightarrow> node list \<Rightarrow> entry \<Rightarrow> bool" where
  "inner_child mn mx h e =
     (case child e of
        None \<Rightarrow> False
      | Some a \<Rightarrow> a < length h \<and> \<not> leaf (h ! a) \<and> in_bounds mn mx (h ! a)
                  \<and> computeBoundingBox (h ! a) = Inr (bb e)
                  \<and> list_all (leaf_child mn mx h) (entries (h ! a)))"

definition one_level :: "int \<Rightarrow> node list \<Rightarrow> bool" where
  "one_level mx h \<longleftrightarrow>
     0 < length h \<and> leaf (h ! 0) \<and> int (length (entries (h ! 0))) \<le> mx
     \<and> list_all leafEntry (entries (h ! 0))"

definition root_over_leaves :: "int \<Rightarrow> int \<Rightarrow> node list \<Rightarrow> bool" where
  "root_over_leaves mn mx h \<longleftrightarrow>
     0 < length h \<and> \<not> leaf (h ! 0)
     \<and> distinct (map child (entries (h ! 0)))
     \<and> list_all (leaf_child mn mx h) (entries (h ! 0))"

definition two_levels :: "int \<Rightarrow> int \<Rightarrow> node list \<Rightarrow> bool" where
  "two_levels mn mx h \<longleftrightarrow>
     root_over_leaves mn mx h \<and> int (length (entries (h ! 0))) \<le> mx"

definition three_levels :: "int \<Rightarrow> int \<Rightarrow> node list \<Rightarrow> bool" where
  "three_levels mn mx h \<longleftrightarrow>
     0 < length h \<and> \<not> leaf (h ! 0) \<and> list_all (inner_child mn mx h) (entries (h ! 0))"

definition reach_inv :: "Rtree \<Rightarrow> bool" where
  "reach_inv t \<longleftrightarrow>
     2 \<le> MinChildren t \<and> MinChildren t \<le> MaxChildren t div 2
     \<and> (one_level (MaxChildren t) (store t)
        \<or> two_levels (MinChildren t) (MaxChildren t) (store t)
        \<or> three_levels (MinChildren t) (MaxChildren t) (store t))"

text \<open>
  The state \<open>(maxWastedSpace, left, right)\<close> of \<open>pickSeeds\<close> after the pairs of indices
  in \<open>S\<close> have been examined: no pair of \<open>S\<close> wastes more than \<open>maxWastedSpace\<close>, and
  either nothing was selected yet or the selected pair is in \<open>S\<close> and wastes exactly
  \<open>maxWastedSpace\<close>.
\<close>

definition seeds_inv :: "entry list \<Rightarrow> (nat \<times> nat) set \<Rightarrow> real \<times> nat \<times> nat \<Rightarrow> bool" where
  "seeds_inv es S st =
     (case st of
        (mx, l, r) \<Rightarrow>
          (\<forall>(a, b)\<in>S. wastedSpace (bb (es ! a)) (bb (es ! b)) \<le> mx)
          \<and> ((mx = - 1 \<and> l = 0 \<and> r = 0)
             \<or> (- 1 < mx \<and> (l, r) \<in> S \<and> wastedSpace (bb (es ! l)) (bb (es ! r)) = mx)))"

section \<open>Evaluating the model\<close>

lemmas model_defs = Insert_def chooseLeaf.simps adjustTree.simps growRoot_def split_node_def
  distribute.simps pickSeeds_def pickNext_def assign_def assignGroup_def computeBoundingBox_def getEntry_def
  set_bb_def append_entry_def deref_def boundingBox_def rect_union_def size_rect_def
  MaxFloat64_def Let_def NewTree_def Delete_def

lemmas data_defs = t9_def t14_def pt_def sq_def cube_def objEntry_def nodeEntry_def leafNode_def

lemma run_t14:
  "run (map OpInsert (map pt [0, 1, 2, 3, 4, 5, 6, 7, 8, 9, 10, 11, 12, 13])) (NewTree 1 2 4, 0, 0)
     = Some (Inr (t14, 14, 0))"
  by (simp add: model_defs data_defs)

section \<open>NewTree\<close>

text \<open>
  C10.  For all integers \<open>d\<close>, \<open>mn\<close>, \<open>mx\<close>, whether or not they meet the documented
  constraints, \<open>NewTree\<close> checks nothing and returns a tree that stores them as given and
  whose root is a leaf with no entries; on it \<open>Size\<close> is 0 and \<open>Depth\<close> is 1.
\<close>

theorem NewTree_unchecked:
  "NewTree d mn mx = \<lparr>Dim = d, MinChildren = mn, MaxChildren = mx,
      store = [\<lparr>parent = None, leaf = True, entries = []\<rparr>], size_tree = 0\<rparr>
   \<and> Size (NewTree d mn mx) = 0 \<and> Depth (NewTree d mn mx) = Some (Inr 1)"
  by (simp add: NewTree_def Size_def Depth_def nodeDepth_def nodeDepthSum.simps deref_def)

section \<open>The dimensionality guard\<close>

text \<open>
  C2.  The claim is that \<open>Insert\<close> of an object whose bounds have another dimension than
  the tree's \<open>Dim\<close> returns a dimensionality error and leaves the tree unchanged.  The
  source never compares the two: on a new tree of dimension 2, inserting a box of
  dimension 3 returns without an error, with the box stored in the root and \<open>Size\<close>
  gone from 0 to 1.
\<close>

theorem Insert_wrong_dim_accepted:
  "Dim (NewTree 2 2 4) = 2 \<and> length (rmin (Bounds cube)) = 3 \<and> Size (NewTree 2 2 4) = 0
   \<and> Insert (NewTree 2 2 4) cube =
        Some (Inr \<lparr>Dim = 2, MinChildren = 2, MaxChildren = 4,
                   store = [\<lparr>parent = None, leaf = True, entries = [objEntry cube]\<rparr>],
                   size_tree = 1\<rparr>)"
  by (simp add: model_defs data_defs Size_def)

section \<open>Insert followed by Delete\<close>

text \<open>
  C5.  The claim is that \<open>Insert(o)\<close> followed by \<open>Delete(o)\<close> makes \<open>Delete\<close> return
  \<open>(true, nil)\<close> and restores the entries held before.  \<open>Delete\<close> is a stub: after
  inserting a square into a new tree, deleting that square returns \<open>ok = false\<close> and the
  tree still holds its entry.
\<close>

theorem Delete_after_Insert_not_found:
  "Insert (NewTree 2 2 4) (sq 1) =
     Some (Inr \<lparr>Dim = 2, MinChildren = 2, MaxChildren = 4,
                store = [\<lparr>parent = None, leaf = True, entries = [objEntry (sq 1)]\<rparr>],
                size_tree = 1\<rparr>)
   \<and> Delete \<lparr>Dim = 2, MinChildren = 2, MaxChildren = 4,
              store = [\<lparr>parent = None, leaf = True, entries = [objEntry (sq 1)]\<rparr>],
              size_tree = 1\<rparr> (sq 1) =
       (\<lparr>Dim = 2, MinChildren = 2, MaxChildren = 4,
         store = [\<lparr>parent = None, leaf = True, entries = [objEntry (sq 1)]\<rparr>],
         size_tree = 1\<rparr>, False, None)"
  by (simp add: model_defs data_defs)

section \<open>Seeds and split on overlapping boxes\<close>

text \<open>
  C6.  The claim is that \<open>pickSeeds\<close> returns a pair of distinct entries of greatest
  wasted space, for every node with at least two entries.  The search starts from
  \<open>maxWastedSpace = -1.0\<close>, so a pair is only taken when its wasted space is above -1.
  Two equal squares of area 4 waste -4: no pair is taken, and the result is the initial
  \<open>(0, 0)\<close>, which is not a pair of distinct entries.
\<close>

theorem pickSeeds_overlapping_no_pair:
  "wastedSpace (Bounds (sq 1)) (Bounds (sq 2)) = - 4
   \<and> pickSeeds \<lparr>parent = None, leaf = True, entries = [objEntry (sq 1), objEntry (sq 2)]\<rparr>
       = Inr (0, 0)"
  by (simp add: model_defs data_defs wastedSpace_def)

text \<open>
  C1.  The claim is that \<open>split\<close> of a node with \<open>MaxChildren + 1\<close> entries returns two
  nodes that partition the entries, each with between \<open>MinChildren\<close> and \<open>MaxChildren\<close>
  entries.  With \<open>MinChildren = 2\<close> and \<open>MaxChildren = 4\<close>, on a node holding five equal
  squares \<open>pickSeeds\<close> returns \<open>(0, 0)\<close> and the slice \<open>n.entries[1:0]\<close> panics: \<open>split\<close>
  returns nothing.  Such a node arises in the root of a new tree at the fifth Insert of
  such a square, which panics in the same way.
\<close>

theorem split_overlapping_panics:
  "split_node [\<lparr>parent = None, leaf = True, entries = map objEntry [sq 1, sq 2, sq 3, sq 4, sq 5]\<rparr>]
     (Some 0) 2 = Inl SliceBounds
   \<and> run (map OpInsert [sq 1, sq 2, sq 3, sq 4, sq 5]) (NewTree 2 2 4, 0, 0) = Some (Inl SliceBounds)"
  by (simp add: model_defs data_defs)

section \<open>Depth\<close>

text \<open>
  C4.  The claim is that \<open>Depth\<close> returns the number of levels from the root to the
  leaves.  \<open>nodeDepth\<close> adds up the results for the children, so it counts the leaves.
  Inserting the points 0 to 8 into \<open>NewTree 1 2 4\<close> succeeds and gives the tree \<open>t9\<close>, a
  root over three leaves: two levels, and \<open>Depth\<close> returns 3.
\<close>

theorem Depth_counts_leaves:
  "run (map OpInsert (map pt [0, 1, 2, 3, 4, 5, 6, 7, 8])) (NewTree 1 2 4, 0, 0) = Some (Inr (t9, 9, 0))
   \<and> levels (store t9) (Some 0) 2 \<and> Depth t9 = Some (Inr 3)"
  by (simp add: model_defs data_defs Depth_def nodeDepth_def nodeDepthSum.simps eval_nat_numeral)

section \<open>Insert on a tree of three levels\<close>

text \<open>
  C3.  The claim is that \<open>Insert\<close> of an object of the tree's dimension never fails on a
  tree reached by successful Inserts.  Inserting the points 0 to 13 into
  \<open>NewTree 1 2 4\<close> succeeds fourteen times and gives \<open>t14\<close>, where the root has been
  split: the leaves keep the root's address as their parent, but the root's entries now
  point to the two inner nodes.  Inserting the point 14 then reaches a leaf for which
  \<open>getEntry\<close> finds no entry in that parent and returns nil, and the store through it
  in \<open>adjustTree\<close> panics.
\<close>

theorem Insert_panics_at_three_levels:
  "run (map OpInsert (map pt [0, 1, 2, 3, 4, 5, 6, 7, 8, 9, 10, 11, 12, 13])) (NewTree 1 2 4, 0, 0)
     = Some (Inr (t14, 14, 0))
   \<and> Dim t14 = 1 \<and> length (rmin (Bounds (pt 14))) = 1
   \<and> Insert t14 (pt 14) = Some (Inl NilDeref)"
  using run_t14 by (simp add: model_defs data_defs)

section \<open>The stored-object count\<close>

lemma adjust_ok_simps [simp]:
  "adjust_ok (t\<lparr>store := h\<rparr>) y = adjust_ok t y"
  "adjust_ok t (Inl err)"
  "adjust_ok t (Inr (t, Some 0, s))"
  by (simp_all add: adjust_ok_def same_config_def split: sum.splits)

lemma adjustTree_config:
  assumes "adjustTree tree n nn = Some y"
  shows "adjust_ok tree y"
  using assms
proof (induction tree n nn y rule: adjustTree.raw_induct[rotated 1, consumes 1])
  case (1 f tree n nn y)
  show ?case
  proof (cases "n = Some 0")
    case True
    with 1(2) show ?thesis by auto
  next
    case False
    with 1(2) have "(\<exists>err. y = Inl err) \<or> (\<exists>h n2 nn2. f (tree\<lparr>store := h\<rparr>) n2 nn2 = Some y)"
      by (simp add: Let_def split: sum.splits option.splits prod.splits if_splits) blast+
    then show ?thesis
      using 1(1) by fastforce
  qed
qed

lemma Insert_config:
  assumes "Insert tree ob = Some (Inr tree')"
  shows "size_tree tree' = size_tree tree + 1 \<and> Dim tree' = Dim tree
     \<and> MinChildren tree' = MinChildren tree \<and> MaxChildren tree' = MaxChildren tree"
  using assms unfolding Insert_def growRoot_def
  by (auto split: sum.splits option.splits prod.splits if_splits
        simp: Let_def same_config_def adjust_ok_def dest!: adjustTree_config)

lemma run_counts:
  assumes "run ops (t0, n0, k0) = Some (Inr (t, n, k))"
    and "Size t0 = int n0 - int k0"
  shows "Size t = int n - int k"
  using assms
proof (induction ops arbitrary: t0 n0 k0)
  case Nil
  then show ?case by simp
next
  case (Cons a ops)
  show ?case
  proof (cases a)
    case (OpInsert ob)
    with Cons.prems(1) obtain t1 where ins: "Insert t0 ob = Some (Inr t1)"
      and rest: "run ops (t1, n0 + 1, k0) = Some (Inr (t, n, k))"
      by (auto split: option.splits sum.splits)
    have "Size t1 = int (n0 + 1) - int k0"
      using Insert_config[OF ins] Cons.prems(2) by (simp add: Size_def)
    then show ?thesis
      by (rule Cons.IH[OF rest])
  next
    case (OpDelete ob)
    with Cons.prems(1) have rest: "run ops (t0, n0, k0) = Some (Inr (t, n, k))"
      by (simp add: Delete_def)
    show ?thesis
      by (rule Cons.IH[OF rest Cons.prems(2)])
  qed
qed

text \<open>
  C9.  After any sequence of calls on a new tree that ran to its end, with \<open>n\<close> Inserts
  that returned and \<open>k\<close> Deletes that returned \<open>ok = true\<close>, \<open>Size\<close> is \<open>n - k\<close>.
  (\<open>Delete\<close> never returns true, so \<open>k\<close> is 0 on every run.)
\<close>

theorem Size_counts:
  assumes "run ops (NewTree d mn mx, 0, 0) = Some (Inr (t, n, k))"
  shows "Size t = int n - int k"
  by (rule run_counts[OF assms]) (simp add: Size_def NewTree_def)

theorem Size_counts_witness:
  "run [OpInsert (pt 0), OpDelete (pt 0), OpInsert (pt 1)] (NewTree 1 2 4, 0, 0)
     = Some (Inr (\<lparr>Dim = 1, MinChildren = 2, MaxChildren = 4,
                    store = [\<lparr>parent = None, leaf = True,
                              entries = [objEntry (pt 0), objEntry (pt 1)]\<rparr>],
                    size_tree = 2\<rparr>, 2, 0))
   \<and> Size \<lparr>Dim = 1, MinChildren = 2, MaxChildren = 4,
            store = [\<lparr>parent = None, leaf = True,
                      entries = [objEntry (pt 0), objEntry (pt 1)]\<rparr>],
            size_tree = 2\<rparr> = int 2 - int 0"
proof -
  have r: "run [OpInsert (pt 0), OpDelete (pt 0), OpInsert (pt 1)] (NewTree 1 2 4, 0, 0)
     = Some (Inr (\<lparr>Dim = 1, MinChildren = 2, MaxChildren = 4,
                    store = [\<lparr>parent = None, leaf = True,
                              entries = [objEntry (pt 0), objEntry (pt 1)]\<rparr>],
                    size_tree = 2\<rparr>, 2, 0))"
    by (simp add: model_defs data_defs)
  show ?thesis
    using r Size_counts[OF r] by simp
qed

section \<open>Descent to a leaf\<close>

lemma chooseEntry_min:
  assumes "chooseEntry ob es diff chosen = Inr (Some c)"
    and "\<forall>e\<in>S. diff \<le> enlargement (bb e) (Bounds ob)"
    and "\<forall>c0. chosen = Some c0 \<longrightarrow> c0 \<in> S \<and> diff = enlargement (bb c0) (Bounds ob)
            \<and> (\<forall>e\<in>S. enlargement (bb e) (Bounds ob) = diff \<longrightarrow> size_rect (bb c0) \<le> size_rect (bb e))"
  shows "c \<in> S \<union> set es
     \<and> (\<forall>e\<in>S \<union> set es. enlargement (bb c) (Bounds ob) \<le> enlargement (bb e) (Bounds ob)
           \<and> (enlargement (bb e) (Bounds ob) = enlargement (bb c) (Bounds ob)
                \<longrightarrow> size_rect (bb c) \<le> size_rect (bb e)))"
  using assms
proof (induction es arbitrary: diff chosen S)
  case Nil
  then show ?case by auto
next
  case (Cons e es)
  let ?enl = "\<lambda>x. enlargement (bb x) (Bounds ob)"
  let ?goal = "c \<in> insert e S \<union> set es
     \<and> (\<forall>x\<in>insert e S \<union> set es. ?enl c \<le> ?enl x
           \<and> (?enl x = ?enl c \<longrightarrow> size_rect (bb c) \<le> size_rect (bb x)))"
  from Cons.prems(1) obtain b where b: "boundingBox (bb e) (Bounds ob) = Inr b"
    by (auto split: sum.splits)
  then have b_eq: "b = rect_union (bb e) (Bounds ob)"
    by (auto simp: boundingBox_def split: if_splits)
  define d where "d = ?enl e"
  have d_eq: "size_rect b - size_rect (bb e) = d"
    by (simp add: d_def enlargement_def b_eq)
  consider (take) "chooseEntry ob es d (Some e) = Inr (Some c)"
      "d < diff \<or> (\<exists>c0. d = diff \<and> chosen = Some c0 \<and> size_rect (bb e) < size_rect (bb c0))"
    | (keep) "chooseEntry ob es diff chosen = Inr (Some c)"
      "diff < d \<or> (\<exists>c0. d = diff \<and> chosen = Some c0 \<and> \<not> size_rect (bb e) < size_rect (bb c0))"
    using Cons.prems(1) b d_eq by (cases chosen) (auto simp: Let_def split: if_splits)
  then have ?goal
  proof cases
    case take
    show ?thesis
    proof (rule Cons.IH[OF take(1)])
      show "\<forall>x\<in>insert e S. d \<le> ?enl x"
        using take(2) Cons.prems(2) by (auto simp: d_def)
      show "\<forall>c0. Some e = Some c0 \<longrightarrow> c0 \<in> insert e S \<and> d = ?enl c0
              \<and> (\<forall>x\<in>insert e S. ?enl x = d \<longrightarrow> size_rect (bb c0) \<le> size_rect (bb x))"
        using take(2) Cons.prems(2,3) by (fastforce simp: d_def)
    qed
  next
    case keep
    show ?thesis
    proof (rule Cons.IH[OF keep(1)])
      show "\<forall>x\<in>insert e S. diff \<le> ?enl x"
        using keep(2) Cons.prems(2) by (auto simp: d_def)
      show "\<forall>c0. chosen = Some c0 \<longrightarrow> c0 \<in> insert e S \<and> diff = ?enl c0
              \<and> (\<forall>x\<in>insert e S. ?enl x = diff \<longrightarrow> size_rect (bb c0) \<le> size_rect (bb x))"
        using keep(2) Cons.prems(3) by (auto simp: d_def)
    qed
  qed
  then show ?case by auto
qed

lemma chooseEntry_returns:
  assumes "\<forall>e\<in>set es. length (rmin (bb e)) = length (rmin (Bounds ob))"
    and "chosen = None \<longrightarrow> (\<forall>e\<in>set es. enlargement (bb e) (Bounds ob) < diff)"
  shows "\<exists>r. chooseEntry ob es diff chosen = Inr r \<and> (r = None \<longleftrightarrow> chosen = None \<and> es = [])"
  using assms
proof (induction es arbitrary: diff chosen)
  case Nil
  then show ?case by simp
next
  case (Cons e es)
  have b: "boundingBox (bb e) (Bounds ob) = Inr (rect_union (bb e) (Bounds ob))"
    using Cons.prems(1) by (simp add: boundingBox_def)
  have rest: "\<forall>e\<in>set es. length (rmin (bb e)) = length (rmin (Bounds ob))"
    using Cons.prems(1) by simp
  have some: "\<exists>r. chooseEntry ob es d' (Some c') = Inr r \<and> (r = None \<longleftrightarrow> Some c' = None \<and> es = [])" for d' c'
    by (rule Cons.IH[OF rest]) simp
  show ?case
  proof (cases chosen)
    case None
    then have "enlargement (bb e) (Bounds ob) < diff"
      using Cons.prems(2) by simp
    then show ?thesis
      using some b by (simp add: enlargement_def Let_def)
  next
    case (Some c0)
    then show ?thesis
      using some b by (simp add: enlargement_def Let_def)
  qed
qed

lemma chooseLeaf_leaf:
  assumes "chooseLeaf h n ob = Some (Inr lf)"
  shows "\<exists>nl. deref h lf = Inr nl \<and> leaf nl"
proof -
  have "\<forall>lf. y = Inr lf \<longrightarrow> (\<exists>nl. deref h lf = Inr nl \<and> leaf nl)"
    if "chooseLeaf h n ob = Some y" for y
    using that
  proof (induction h n ob y rule: chooseLeaf.raw_induct[rotated 1, consumes 1])
    case (1 f h n ob y)
    then show ?case
      by (auto split: sum.splits if_splits)
  qed
  with assms show ?thesis by blast
qed

lemma chooseLeaf_returns:
  assumes "levels h n d"
  shows "\<exists>r. chooseLeaf h n ob = Some r"
  using assms
proof (induction d arbitrary: n)
  case 0
  then show ?case by simp
next
  case (Suc d)
  from Suc.prems obtain nd where nd: "deref h n = Inr nd"
    by (auto split: sum.splits)
  show ?case
  proof (cases "leaf nd")
    case True
    then show ?thesis
      using nd by (subst chooseLeaf.simps) simp
  next
    case False
    with Suc.prems nd have sub: "\<forall>e\<in>set (entries nd). levels h (child e) d"
      by (simp add: list_all_iff)
    show ?thesis
    proof (cases "chooseEntry ob (entries nd) MaxFloat64 None")
      case (Inl err)
      then show ?thesis
        using nd False by (subst chooseLeaf.simps) simp
    next
      case (Inr chosen)
      show ?thesis
      proof (cases chosen)
        case None
        then show ?thesis
          using nd False Inr
          by (subst chooseLeaf.simps, simp, subst chooseLeaf.simps, simp add: deref_def)
      next
        case (Some c)
        have "c \<in> {} \<union> set (entries nd)"
          using chooseEntry_min[of ob "entries nd" MaxFloat64 None c "{}"] Inr Some by simp
        then have "levels h (child c) d"
          using sub by simp
        then obtain r where "chooseLeaf h (child c) ob = Some r"
          using Suc.IH by blast
        then show ?thesis
          using nd False Inr Some by (subst chooseLeaf.simps) simp
      qed
    qed
  qed
qed

text \<open>
  In exact arithmetic, on entries whose boxes have the object's dimension and whose
  enlargements are all below the start value, the loop of \<open>chooseLeaf\<close> ends with an
  entry of least enlargement that, among the entries of that enlargement, has the least
  box and so the least enlarged box.
\<close>

lemma chooseEntry_least:
  assumes "es \<noteq> []"
    and "\<forall>e\<in>set es. length (rmin (bb e)) = length (rmin (Bounds ob))"
    and "\<forall>e\<in>set es. enlargement (bb e) (Bounds ob) < MaxFloat64"
  shows "\<exists>c\<in>set es. chooseEntry ob es MaxFloat64 None = Inr (Some c)
     \<and> (\<forall>e\<in>set es. enlargement (bb c) (Bounds ob) \<le> enlargement (bb e) (Bounds ob))
     \<and> (\<forall>e\<in>set es. enlargement (bb e) (Bounds ob) = enlargement (bb c) (Bounds ob) \<longrightarrow>
           size_rect (rect_union (bb c) (Bounds ob)) \<le> size_rect (rect_union (bb e) (Bounds ob)))"
proof -
  obtain r where "chooseEntry ob es MaxFloat64 None = Inr r" and "r \<noteq> None"
    using chooseEntry_returns[of es ob None MaxFloat64] assms by auto
  then obtain c where c: "chooseEntry ob es MaxFloat64 None = Inr (Some c)"
    by auto
  have m: "c \<in> {} \<union> set es
     \<and> (\<forall>e\<in>{} \<union> set es. enlargement (bb c) (Bounds ob) \<le> enlargement (bb e) (Bounds ob)
           \<and> (enlargement (bb e) (Bounds ob) = enlargement (bb c) (Bounds ob)
                \<longrightarrow> size_rect (bb c) \<le> size_rect (bb e)))"
    by (rule chooseEntry_min[OF c]) simp_all
  have tie: "size_rect (rect_union (bb c) (Bounds ob)) \<le> size_rect (rect_union (bb e) (Bounds ob))"
    if "e \<in> set es" "enlargement (bb e) (Bounds ob) = enlargement (bb c) (Bounds ob)" for e
  proof -
    have "size_rect (bb c) \<le> size_rect (bb e)"
      using m that by simp
    with that(2) show ?thesis
      by (simp add: enlargement_def)
  qed
  show ?thesis
    using m c tie by (intro bexI[of _ c]) auto
qed

text \<open>
  C7.  The claim is that at every internal node of the descent \<open>chooseLeaf\<close> follows an
  entry of least enlargement.  The search starts from \<open>diff = math.MaxFloat64\<close> and takes
  an entry only when its enlargement is below \<open>diff\<close>, or equal to it with a smaller
  box.  On the tree \<open>t9\<close>, reached by inserting the points 0 to 8, the interval \<open>wide\<close>
  enlarges every entry of the root to the length \<open>2^1024\<close>, which is \<open>+Inf\<close> in
  \<open>float64\<close>: every enlargement is above the start value, no entry is taken, \<open>chosen\<close>
  stays the zero entry, and \<open>chooseLeaf\<close> calls itself on its nil child and panics.  An
  entry is followed for no node of this descent, and \<open>Insert\<close> of \<open>wide\<close> panics.
\<close>

theorem chooseLeaf_overflow_no_entry:
  "run (map OpInsert (map pt [0, 1, 2, 3, 4, 5, 6, 7, 8])) (NewTree 1 2 4, 0, 0) = Some (Inr (t9, 9, 0))
   \<and> \<not> leaf (store t9 ! 0) \<and> Dim t9 = 1 \<and> length (rmin (Bounds wide)) = 1
   \<and> map (\<lambda>e. enlargement (bb e) (Bounds wide)) (entries (store t9 ! 0))
       = [2 ^ 1024 - 2, 2 ^ 1024 - 2, 2 ^ 1024 - 2]
   \<and> chooseEntry wide (entries (store t9 ! 0)) MaxFloat64 None = Inr None
   \<and> chooseLeaf (store t9) (Some 0) wide = Some (Inl NilDeref)
   \<and> Insert t9 wide = Some (Inl NilDeref)"
  by (simp add: model_defs data_defs wide_def enlargement_def)

section \<open>The split engine when the seeds are a pair\<close>

lemma pickSeedsInner_range:
  assumes "pickSeedsInner e1 i es j st = Inr st'"
    and "i + j + length es < n"
    and "case st of (mx, l, r) \<Rightarrow> (l = 0 \<and> r = 0) \<or> (l < r \<and> r < n)"
  shows "case st' of (mx, l, r) \<Rightarrow> (l = 0 \<and> r = 0) \<or> (l < r \<and> r < n)"
  using assms
proof (induction es arbitrary: j st)
  case Nil
  then show ?case by simp
next
  case (Cons e2 es)
  obtain mx l r where st: "st = (mx, l, r)"
    by (cases st)
  from Cons.prems(1) st obtain st1 where
    step: "pickSeedsInner e1 i es (j + 1) st1 = Inr st'"
    and st1: "st1 = (mx, l, r) \<or> (\<exists>d. st1 = (d, i, j + i + 1))"
    by (auto simp: Let_def split: sum.splits if_splits)
  have "case st1 of (mx, l, r) \<Rightarrow> (l = 0 \<and> r = 0) \<or> (l < r \<and> r < n)"
    using st1 Cons.prems(2,3) st by auto
  with step Cons.prems(2) show ?case
    by (intro Cons.IH[of "j + 1" st1]) auto
qed

lemma pickSeedsOuter_range:
  assumes "pickSeedsOuter es i st = Inr st'"
    and "i + length es \<le> n"
    and "case st of (mx, l, r) \<Rightarrow> (l = 0 \<and> r = 0) \<or> (l < r \<and> r < n)"
  shows "case st' of (mx, l, r) \<Rightarrow> (l = 0 \<and> r = 0) \<or> (l < r \<and> r < n)"
  using assms
proof (induction es arbitrary: i st)
  case Nil
  then show ?case by simp
next
  case (Cons e1 es)
  from Cons.prems(1) obtain st1 where
    inner: "pickSeedsInner e1 i es 0 st = Inr st1"
    and rest: "pickSeedsOuter es (i + 1) st1 = Inr st'"
    by (auto split: sum.splits)
  have "case st1 of (mx, l, r) \<Rightarrow> (l = 0 \<and> r = 0) \<or> (l < r \<and> r < n)"
    using pickSeedsInner_range[OF inner _ Cons.prems(3)] Cons.prems(2) by simp
  with rest Cons.prems(2) show ?case
    by (intro Cons.IH[of "i + 1" st1]) auto
qed

lemma pickSeeds_range:
  assumes "pickSeeds nd = Inr (l, r)"
  shows "(l = 0 \<and> r = 0) \<or> (l < r \<and> r < length (entries nd))"
proof -
  from assms obtain mx where "pickSeedsOuter (entries nd) 0 (- 1, 0, 0) = Inr (mx, l, r)"
    by (auto simp: pickSeeds_def split: sum.splits)
  from pickSeedsOuter_range[OF this, of "length (entries nd)"] show ?thesis
    by simp
qed

lemma mset_remove_nth:
  "i < length xs \<Longrightarrow> mset (take i xs @ drop (i + 1) xs) + {#xs ! i#} = mset xs"
proof -
  assume "i < length xs"
  then have "xs = take i xs @ xs ! i # drop (Suc i) xs"
    by (rule id_take_nth_drop)
  then have "mset xs = mset (take i xs @ xs ! i # drop (Suc i) xs)"
    by simp
  then show ?thesis
    by simp
qed

lemma mset_remove_two:
  assumes "l < r" and "r < length xs"
  shows "mset (take l xs @ drop (l + 1) (take r xs) @ drop (r + 1) xs) + {#xs ! l, xs ! r#} = mset xs"
proof -
  have 1: "mset xs = mset (take r xs) + mset (drop (r + 1) xs) + {#xs ! r#}"
    using mset_remove_nth[OF assms(2)] by simp
  have "l < length (take r xs)"
    using assms by simp
  from mset_remove_nth[OF this]
  have 2: "mset (take r xs) = mset (take l xs) + mset (drop (l + 1) (take r xs)) + {#xs ! l#}"
    using assms by (simp add: min_def)
  have "mset xs = (mset (take l xs) + mset (drop (l + 1) (take r xs)) + {#xs ! l#})
                  + mset (drop (r + 1) xs) + {#xs ! r#}"
    by (subst 1, subst 2) simp
  then show ?thesis
    by simp
qed

lemma assignGroup_cases:
  assumes "assignGroup e L R = Inr (L', R')"
  shows "(L' = assign e L \<and> R' = R) \<or> (L' = L \<and> R' = assign e R)"
  using assms unfolding assignGroup_def
  by (auto simp: Let_def split: sum.splits if_splits)
lemma distribute_props_aux:
  assumes "distribute m L R rem = Inr (L', R')" and "length rem = k"
  shows "\<exists>le re. L' = L\<lparr>entries := le\<rparr> \<and> R' = R\<lparr>entries := re\<rparr>
     \<and> mset le + mset re = mset (entries L) + mset (entries R) + mset rem
     \<and> (m \<le> int (length (entries L)) + int (length rem) \<longrightarrow>
        m \<le> int (length (entries R)) + int (length rem) \<longrightarrow>
        2 * m + 1 \<le> int (length (entries L)) + int (length (entries R)) + int (length rem) \<longrightarrow>
        m \<le> int (length le) \<and> m \<le> int (length re))"
  using assms
proof (induction k arbitrary: L R rem)
  case 0
  then have "L' = L" "R' = R" "rem = []"
    by (simp_all add: distribute.simps[of m L R rem])
  then show ?case
    by (intro exI[of _ "entries L"] exI[of _ "entries R"]) simp
next
  case (Suc k)
  then have ne: "rem \<noteq> []"
    by auto
  from Suc.prems(1) ne obtain nxt where nxt: "pickNext L R rem = Inr nxt" and lt: "nxt < length rem"
    by (subst (asm) distribute.simps) (auto split: sum.splits if_splits)
  define e where "e = rem ! nxt"
  define rem' where "rem' = take nxt rem @ drop (nxt + 1) rem"
  have ms: "mset rem = mset rem' + {#e#}"
    unfolding e_def rem'_def using lt by (rule mset_remove_nth[symmetric])
  have len': "length rem' = k"
    using lt Suc.prems(2) by (simp add: rem'_def min_def)
  have len: "int (length rem) = int (length rem') + 1"
    using len' Suc.prems(2) by simp
  consider (left) "int (length rem) + int (length (entries L)) \<le> m"
      "distribute m (assign e L) R rem' = Inr (L', R')"
    | (right) "\<not> int (length rem) + int (length (entries L)) \<le> m"
      "int (length rem) + int (length (entries R)) \<le> m"
      "distribute m L (assign e R) rem' = Inr (L', R')"
    | (groupl) "\<not> int (length rem) + int (length (entries L)) \<le> m"
      "\<not> int (length rem) + int (length (entries R)) \<le> m"
      "distribute m (assign e L) R rem' = Inr (L', R')"
    | (groupr) "\<not> int (length rem) + int (length (entries L)) \<le> m"
      "\<not> int (length rem) + int (length (entries R)) \<le> m"
      "distribute m L (assign e R) rem' = Inr (L', R')"
    using Suc.prems(1) ne nxt lt
    by (subst (asm) distribute.simps)
       (auto simp: Let_def e_def rem'_def split: sum.splits if_splits dest!: assignGroup_cases)
  then show ?case
  proof cases
    case left
    from Suc.IH[OF left(2) len'] obtain le re where
      r: "L' = (assign e L)\<lparr>entries := le\<rparr>" "R' = R\<lparr>entries := re\<rparr>"
        "mset le + mset re = mset (entries (assign e L)) + mset (entries R) + mset rem'"
        "m \<le> int (length (entries (assign e L))) + int (length rem') \<longrightarrow>
         m \<le> int (length (entries R)) + int (length rem') \<longrightarrow>
         2 * m + 1 \<le> int (length (entries (assign e L))) + int (length (entries R)) + int (length rem') \<longrightarrow>
         m \<le> int (length le) \<and> m \<le> int (length re)"
      by blast
    show ?thesis
      using r left(1) len ms by (intro exI[of _ le] exI[of _ re]) (auto simp: assign_def)
  next
    case right
    from Suc.IH[OF right(3) len'] obtain le re where
      r: "L' = L\<lparr>entries := le\<rparr>" "R' = (assign e R)\<lparr>entries := re\<rparr>"
        "mset le + mset re = mset (entries L) + mset (entries (assign e R)) + mset rem'"
        "m \<le> int (length (entries L)) + int (length rem') \<longrightarrow>
         m \<le> int (length (entries (assign e R))) + int (length rem') \<longrightarrow>
         2 * m + 1 \<le> int (length (entries L)) + int (length (entries (assign e R))) + int (length rem') \<longrightarrow>
         m \<le> int (length le) \<and> m \<le> int (length re)"
      by blast
    show ?thesis
      using r right(1,2) len ms by (intro exI[of _ le] exI[of _ re]) (auto simp: assign_def)
  next
    case groupl
    from Suc.IH[OF groupl(3) len'] obtain le re where
      r: "L' = (assign e L)\<lparr>entries := le\<rparr>" "R' = R\<lparr>entries := re\<rparr>"
        "mset le + mset re = mset (entries (assign e L)) + mset (entries R) + mset rem'"
        "m \<le> int (length (entries (assign e L))) + int (length rem') \<longrightarrow>
         m \<le> int (length (entries R)) + int (length rem') \<longrightarrow>
         2 * m + 1 \<le> int (length (entries (assign e L))) + int (length (entries R)) + int (length rem') \<longrightarrow>
         m \<le> int (length le) \<and> m \<le> int (length re)"
      by blast
    show ?thesis
      using r groupl(1,2) len ms by (intro exI[of _ le] exI[of _ re]) (auto simp: assign_def)
  next
    case groupr
    from Suc.IH[OF groupr(3) len'] obtain le re where
      r: "L' = L\<lparr>entries := le\<rparr>" "R' = (assign e R)\<lparr>entries := re\<rparr>"
        "mset le + mset re = mset (entries L) + mset (entries (assign e R)) + mset rem'"
        "m \<le> int (length (entries L)) + int (length rem') \<longrightarrow>
         m \<le> int (length (entries (assign e R))) + int (length rem') \<longrightarrow>
         2 * m + 1 \<le> int (length (entries L)) + int (length (entries (assign e R))) + int (length rem') \<longrightarrow>
         m \<le> int (length le) \<and> m \<le> int (length re)"
      by blast
    show ?thesis
      using r groupr(1,2) len ms by (intro exI[of _ le] exI[of _ re]) (auto simp: assign_def)
  qed
qed

lemma split_node_props:
  assumes "a < length h" and "split_node h (Some a) m = Inr (h', l, r)"
  shows "\<exists>le re. l = a \<and> r = length h
     \<and> h' = h[a := (h ! a)\<lparr>entries := le\<rparr>]
              @ [\<lparr>parent = parent (h ! a), leaf = leaf (h ! a), entries = re\<rparr>]
     \<and> mset le + mset re = mset (entries (h ! a))
     \<and> (0 \<le> m \<longrightarrow> 2 * m + 1 \<le> int (length (entries (h ! a))) \<longrightarrow>
          m \<le> int (length le) \<and> m \<le> int (length re))"
proof -
  define nd where "nd = h ! a"
  define es where "es = entries nd"
  from assms obtain l0 r0 where seeds: "pickSeeds nd = Inr (l0, r0)"
    by (auto simp: split_node_def deref_def nd_def split: sum.splits)
  from assms seeds have guard: "l0 < length es" "r0 < length es" "l0 + 1 \<le> r0"
    by (auto simp: split_node_def deref_def nd_def es_def split: sum.splits if_splits)
  define remaining where
    "remaining = take l0 es @ drop (l0 + 1) (take r0 es) @ drop (r0 + 1) es"
  from assms seeds guard obtain L R where
    dist: "distribute m (nd\<lparr>entries := [es ! l0]\<rparr>)
             \<lparr>parent = parent nd, leaf = leaf nd, entries = [es ! r0]\<rparr> remaining = Inr (L, R)"
    and res: "h' = h[a := L] @ [R]" "l = a" "r = length h"
    by (auto simp: split_node_def deref_def nd_def es_def remaining_def Let_def
             split: sum.splits if_splits)
  from distribute_props_aux[OF dist refl] obtain le re where
    lr: "L = nd\<lparr>entries := le\<rparr>"
        "R = \<lparr>parent = parent nd, leaf = leaf nd, entries = re\<rparr>"
    and ms: "mset le + mset re = {#es ! l0#} + {#es ! r0#} + mset remaining"
    and sz: "m \<le> 1 + int (length remaining) \<longrightarrow>
        2 * m + 1 \<le> 2 + int (length remaining) \<longrightarrow>
        m \<le> int (length le) \<and> m \<le> int (length re)"
    by auto
  have all: "mset remaining + {#es ! l0, es ! r0#} = mset es"
    unfolding remaining_def using guard by (intro mset_remove_two) auto
  have "size (mset remaining + {#es ! l0, es ! r0#}) = size (mset es)"
    using all by simp
  then have len: "int (length es) = int (length remaining) + 2"
    by simp
  have "mset le + mset re = mset es"
    using ms all by (simp add: add_mset_commute)
  moreover have "0 \<le> m \<longrightarrow> 2 * m + 1 \<le> int (length es) \<longrightarrow>
          m \<le> int (length le) \<and> m \<le> int (length re)"
    using sz len by auto
  ultimately show ?thesis
    using res lr by (intro exI[of _ le] exI[of _ re]) (simp add: nd_def es_def)
qed

section \<open>Single steps of Insert\<close>

lemma computeBoundingBox_parent [simp]:
  "computeBoundingBox (nd\<lparr>parent := x\<rparr>) = computeBoundingBox nd"
  by (simp add: computeBoundingBox_def)

lemma in_bounds_parent [simp]: "in_bounds mn mx (nd\<lparr>parent := x\<rparr>) = in_bounds mn mx nd"
  by (simp add: in_bounds_def)

lemma adjustTree_root: "adjustTree t (Some 0) nn = Some (Inr (t, Some 0, nn))"
  by (subst adjustTree.simps) simp

lemma chooseLeaf_at_leaf:
  "a < length h \<Longrightarrow> leaf (h ! a) \<Longrightarrow> chooseLeaf h (Some a) ob = Some (Inr (Some a))"
  by (subst chooseLeaf.simps) (simp add: deref_def)

lemma chooseLeaf_nil: "chooseLeaf h None ob = Some (Inl NilDeref)"
  by (subst chooseLeaf.simps) (simp add: deref_def)

lemma chooseEntry_mem:
  "chooseEntry ob es MaxFloat64 None = Inr (Some c) \<Longrightarrow> c \<in> set es"
  using chooseEntry_min[of ob es MaxFloat64 None c "{}"] by simp

lemma append_entry_lookup [simp]:
  "length (append_entry h a e) = length h"
  "a < length h \<Longrightarrow> append_entry h a e ! a = (h ! a)\<lparr>entries := entries (h ! a) @ [e]\<rparr>"
  "b \<noteq> a \<Longrightarrow> append_entry h a e ! b = h ! b"
  by (simp_all add: append_entry_def)

lemma set_bb_lookup [simp]:
  "length (set_bb h a i box) = length h"
  "a < length h \<Longrightarrow> set_bb h a i box ! a
     = (h ! a)\<lparr>entries := (entries (h ! a))[i := (entries (h ! a) ! i)\<lparr>bb := box\<rparr>]\<rparr>"
  "b \<noteq> a \<Longrightarrow> set_bb h a i box ! b = h ! b"
  by (simp_all add: set_bb_def)

lemma growRoot_lookup:
  assumes "growRoot t (Some 0) r = Inr t'" and "0 < r" and "r < length (store t)"
  shows "\<exists>box1 box2.
       computeBoundingBox (store t ! 0) = Inr box1 \<and> computeBoundingBox (store t ! r) = Inr box2
     \<and> length (store t') = length (store t) + 1
     \<and> store t' ! 0 = \<lparr>parent = None, leaf = False,
           entries = [\<lparr>bb = box1, child = Some (length (store t)), obj = None\<rparr>,
                      \<lparr>bb = box2, child = Some r, obj = None\<rparr>]\<rparr>
     \<and> store t' ! r = (store t ! r)\<lparr>parent := Some 0\<rparr>
     \<and> store t' ! length (store t) = (store t ! 0)\<lparr>parent := Some 0\<rparr>
     \<and> (\<forall>b. b < length (store t) \<longrightarrow> b \<noteq> 0 \<longrightarrow> b \<noteq> r \<longrightarrow> store t' ! b = store t ! b)"
  using assms unfolding growRoot_def deref_def
  by (auto simp: Let_def nth_append nth_list_update split: sum.splits if_splits)

lemma split_node_lookup:
  assumes "a < length h" and "split_node h (Some a) m = Inr (h', l, r)"
  shows "\<exists>le re. l = a \<and> r = length h \<and> length h' = length h + 1
     \<and> h' ! a = (h ! a)\<lparr>entries := le\<rparr>
     \<and> h' ! length h = \<lparr>parent = parent (h ! a), leaf = leaf (h ! a), entries = re\<rparr>
     \<and> (\<forall>b. b < length h \<longrightarrow> b \<noteq> a \<longrightarrow> h' ! b = h ! b)
     \<and> set le \<union> set re = set (entries (h ! a))
     \<and> length le + length re = length (entries (h ! a))
     \<and> (0 \<le> m \<longrightarrow> 2 * m + 1 \<le> int (length (entries (h ! a))) \<longrightarrow>
          m \<le> int (length le) \<and> m \<le> int (length re))"
proof -
  from split_node_props[OF assms] obtain le re where
    p: "l = a" "r = length h"
       "h' = h[a := (h ! a)\<lparr>entries := le\<rparr>]
              @ [\<lparr>parent = parent (h ! a), leaf = leaf (h ! a), entries = re\<rparr>]"
       "mset le + mset re = mset (entries (h ! a))"
       "0 \<le> m \<longrightarrow> 2 * m + 1 \<le> int (length (entries (h ! a))) \<longrightarrow>
          m \<le> int (length le) \<and> m \<le> int (length re)"
    by blast
  have "set_mset (mset le + mset re) = set_mset (mset (entries (h ! a)))"
    using p(4) by simp
  then have s: "set le \<union> set re = set (entries (h ! a))"
    by simp
  have "size (mset le + mset re) = size (mset (entries (h ! a)))"
    using p(4) by simp
  then have n: "length le + length re = length (entries (h ! a))"
    by simp
  show ?thesis
    using p(1,2,3,5) s n assms(1)
    by (intro exI[of _ le] exI[of _ re]) (simp add: nth_append)
qed

lemma Insert_one_level:
  assumes cfg: "2 \<le> MinChildren t" "MinChildren t \<le> MaxChildren t div 2"
    and inv: "one_level (MaxChildren t) (store t)"
    and ins: "Insert t ob = Some (Inr t')"
  shows "one_level (MaxChildren t) (store t')
     \<or> two_levels (MinChildren t) (MaxChildren t) (store t')"
proof -
  let ?h = "store t"
  let ?e = "\<lparr>bb = Bounds ob, child = None, obj = Some ob\<rparr>"
  let ?h1 = "append_entry ?h 0 ?e"
  let ?mn = "MinChildren t" and ?mx = "MaxChildren t"
  have h0: "0 < length ?h" "leaf (?h ! 0)" "int (length (entries (?h ! 0))) \<le> ?mx"
    "list_all leafEntry (entries (?h ! 0))"
    using inv by (simp_all add: one_level_def)
  have cl: "chooseLeaf ?h (Some 0) ob = Some (Inr (Some 0))"
    using h0 by (intro chooseLeaf_at_leaf) auto
  have e_leaf: "leafEntry ?e"
    by (simp add: leafEntry_def)
  have h1_0: "?h1 ! 0 = (?h ! 0)\<lparr>entries := entries (?h ! 0) @ [?e]\<rparr>" "length ?h1 = length ?h"
    using h0 by simp_all
  show ?thesis
  proof (cases "?mx < int (length (entries (?h1 ! 0)))")
    case False
    then have "t' = t\<lparr>store := ?h1, size_tree := size_tree t + 1\<rparr>"
      using ins cl by (simp add: Insert_def adjustTree_root Let_def)
    then show ?thesis
      using False h0 h1_0 e_leaf by (simp add: one_level_def)
  next
    case True
    from ins cl True obtain h2 l r where
      sp: "split_node ?h1 (Some 0) ?mn = Inr (h2, l, r)"
      by (auto simp: Insert_def Let_def split: sum.splits)
    have pos: "0 < length ?h1"
      using h0 by simp
    from split_node_lookup[OF pos sp] obtain le re where
      s: "r = length ?h1" "length h2 = length ?h1 + 1"
         "h2 ! 0 = (?h1 ! 0)\<lparr>entries := le\<rparr>"
         "h2 ! length ?h1 = \<lparr>parent = parent (?h1 ! 0), leaf = leaf (?h1 ! 0), entries = re\<rparr>"
         "set le \<union> set re = set (entries (?h1 ! 0))"
         "length le + length re = length (entries (?h1 ! 0))"
         "0 \<le> ?mn \<longrightarrow> 2 * ?mn + 1 \<le> int (length (entries (?h1 ! 0))) \<longrightarrow>
            ?mn \<le> int (length le) \<and> ?mn \<le> int (length re)"
      and l: "l = 0"
      by blast
    from ins cl True sp l obtain t2 where
      gr: "growRoot (t\<lparr>store := h2\<rparr>) (Some 0) r = Inr t2"
      and t': "store t' = store t2"
      by (auto simp: Insert_def adjustTree_root Let_def split: sum.splits)
    have sizes: "?mn \<le> int (length le)" "?mn \<le> int (length re)"
      "int (length le) \<le> ?mx" "int (length re) \<le> ?mx"
      using s(6,7) True cfg h0(3) h1_0 by auto
    have "set le \<union> set re = insert ?e (set (entries (?h ! 0)))"
      using s(5) h1_0 by simp
    then have sub: "set le \<subseteq> insert ?e (set (entries (?h ! 0)))"
      "set re \<subseteq> insert ?e (set (entries (?h ! 0)))"
      by blast+
    have leaves: "list_all leafEntry le" "list_all leafEntry re"
      using sub h0(4) e_leaf by (auto simp: list_all_iff)
    have r: "0 < r" "r < length (store (t\<lparr>store := h2\<rparr>))"
      using s(1,2) h0 by simp_all
    from growRoot_lookup[OF gr r] obtain box1 box2 where
      g: "computeBoundingBox (h2 ! 0) = Inr box1" "computeBoundingBox (h2 ! r) = Inr box2"
         "length (store t2) = length h2 + 1"
         "store t2 ! 0 = \<lparr>parent = None, leaf = False,
             entries = [\<lparr>bb = box1, child = Some (length h2), obj = None\<rparr>,
                        \<lparr>bb = box2, child = Some r, obj = None\<rparr>]\<rparr>"
         "store t2 ! r = (h2 ! r)\<lparr>parent := Some 0\<rparr>"
         "store t2 ! length h2 = (h2 ! 0)\<lparr>parent := Some 0\<rparr>"
      by auto
    have "two_levels ?mn ?mx (store t2)"
      using g s(1,2,3,4) sizes leaves h0 h1_0 cfg
      by (auto simp: two_levels_def root_over_leaves_def leaf_child_def leaf_ok_def
            in_bounds_def computeBoundingBox_def)
    then show ?thesis
      using t' by simp
  qed
qed

lemma findChild_Some:
  "findChild es n i = Some j \<Longrightarrow> \<exists>k<length es. j = i + k \<and> child (es ! k) = n"
proof (induction es arbitrary: i)
  case Nil
  then show ?case by simp
next
  case (Cons e es)
  show ?case
  proof (cases "child e = n")
    case True
    with Cons.prems show ?thesis by auto
  next
    case False
    with Cons.prems have "findChild es n (i + 1) = Some j"
      by simp
    from Cons.IH[OF this] obtain k where "k < length es" "j = i + 1 + k" "child (es ! k) = n"
      by blast
    then show ?thesis
      by (intro exI[of _ "Suc k"]) simp
  qed
qed

lemma findChild_None:
  "findChild es n i = None \<Longrightarrow> e \<in> set es \<Longrightarrow> child e \<noteq> n"
  by (induction es arbitrary: i) (auto split: if_splits)

lemma findChild_found:
  assumes "e \<in> set es" and "child e = n"
  shows "\<exists>k<length es. findChild es n 0 = Some k \<and> child (es ! k) = n"
proof (cases "findChild es n 0")
  case None
  with assms show ?thesis
    using findChild_None by blast
next
  case (Some j)
  with findChild_Some[OF Some] show ?thesis
    by auto
qed

lemma getEntry_found:
  assumes "a < length h" and "parent (h ! a) = Some 0" and "0 < length h"
    and "findChild (entries (h ! 0)) (Some a) 0 = Some k"
  shows "getEntry h (Some a) = Inr (Some (0, k))"
  using assms by (simp add: getEntry_def deref_def)

lemma getEntry_missing:
  assumes "a < length h" and "parent (h ! a) = Some 0" and "0 < length h"
    and "\<forall>e\<in>set (entries (h ! 0)). child e \<noteq> Some a"
  shows "getEntry h (Some a) = Inr None"
proof -
  have "findChild (entries (h ! 0)) (Some a) 0 = None"
  proof (cases "findChild (entries (h ! 0)) (Some a) 0")
    case (Some j)
    from findChild_Some[OF this] obtain k where
      "k < length (entries (h ! 0))" "child (entries (h ! 0) ! k) = Some a"
      by blast
    then have "\<exists>e\<in>set (entries (h ! 0)). child e = Some a"
      using nth_mem by blast
    with assms(4) show ?thesis
      by blast
  qed simp
  then show ?thesis
    using assms by (simp add: getEntry_def deref_def)
qed

lemma chooseLeaf_two_levels:
  assumes "root_over_leaves mn mx h" and "chooseLeaf h (Some 0) ob = Some (Inr lf)"
  shows "\<exists>c\<in>set (entries (h ! 0)). lf = child c"
proof -
  have h0: "0 < length h" "\<not> leaf (h ! 0)" "list_all (leaf_child mn mx h) (entries (h ! 0))"
    using assms(1) by (simp_all add: root_over_leaves_def)
  from assms(2) h0 obtain chosen where
    ch: "chooseEntry ob (entries (h ! 0)) MaxFloat64 None = Inr chosen"
    and rest: "chooseLeaf h (Option.bind chosen child) ob = Some (Inr lf)"
    by (subst (asm) chooseLeaf.simps) (auto simp: deref_def split: sum.splits)
  from rest obtain c where c: "chosen = Some c"
    by (cases chosen) (simp_all add: chooseLeaf_nil)
  have mem: "c \<in> set (entries (h ! 0))"
    using ch c by (intro chooseEntry_mem) simp
  with h0(3) have "leaf_child mn mx h c"
    by (simp add: list_all_iff)
  then obtain a where a: "child c = Some a" "a < length h" "leaf (h ! a)"
    by (auto simp: leaf_child_def leaf_ok_def split: option.splits)
  then have "lf = Some a"
    using rest c chooseLeaf_at_leaf[of a h ob] by simp
  with mem a show ?thesis
    by (intro bexI[of _ c]) simp_all
qed

lemma map_child_set_bb:
  assumes "k < length es"
  shows "map child (es[k := (es ! k)\<lparr>bb := box\<rparr>]) = map child es"
  using assms by (simp add: map_update list_update_same_conv)

lemma root_refresh:
  assumes inv: "root_over_leaves mn mx h"
    and k: "k < length (entries (h ! 0))" "child (entries (h ! 0) ! k) = Some a"
    and len: "length h \<le> length h'"
    and root: "h' ! 0 = (h ! 0)\<lparr>entries := (entries (h ! 0))[k := (entries (h ! 0) ! k)\<lparr>bb := box\<rparr>]\<rparr>"
    and same: "\<forall>b. b < length h \<longrightarrow> b \<noteq> 0 \<longrightarrow> b \<noteq> a \<longrightarrow> h' ! b = h ! b"
    and new: "leaf_ok mn mx (h' ! a)" "computeBoundingBox (h' ! a) = Inr box"
  shows "root_over_leaves mn mx h'"
proof -
  let ?res = "entries (h ! 0)"
  let ?res' = "?res[k := (?res ! k)\<lparr>bb := box\<rparr>]"
  have h0: "0 < length h" "\<not> leaf (h ! 0)" "distinct (map child ?res)"
    and all: "\<forall>j<length ?res. leaf_child mn mx h (?res ! j)"
    using inv by (simp_all add: root_over_leaves_def list_all_length)
  have ch: "map child ?res' = map child ?res"
    using k(1) by (rule map_child_set_bb)
  have "leaf_child mn mx h' (?res' ! j)" if j: "j < length ?res" for j
  proof (cases "j = k")
    case True
    have "leaf_child mn mx h (?res ! k)"
      using all k(1) by simp
    then have "0 < a" "a < length h"
      using k(2) by (simp_all add: leaf_child_def)
    then show ?thesis
      using True k new len by (simp add: leaf_child_def)
  next
    case False
    have lc: "leaf_child mn mx h (?res ! j)"
      using all j by simp
    then obtain b where b: "child (?res ! j) = Some b" "0 < b" "b < length h"
      by (auto simp: leaf_child_def split: option.splits)
    have "map child ?res ! j \<noteq> map child ?res ! k"
      using h0(3) j k(1) False by (simp add: nth_eq_iff_index_eq del: nth_map)
    then have "b \<noteq> a"
      using b(1) k j by simp
    then have "h' ! b = h ! b"
      using same b by simp
    then show ?thesis
      using lc b False len by (simp add: leaf_child_def)
  qed
  then have "list_all (leaf_child mn mx h') ?res'"
    by (simp add: list_all_length)
  moreover have "0 < length h'"
    using h0(1) len by (cases h') auto
  ultimately show ?thesis
    using h0 root ch by (simp add: root_over_leaves_def)
qed

lemma leaf_child_same:
  assumes "leaf_child mn mx h e" and "length h \<le> length h'"
    and "\<forall>b. b < length h \<longrightarrow> 0 < b \<longrightarrow> h' ! b = h ! b"
  shows "leaf_child mn mx h' e"
  using assms by (auto simp: leaf_child_def split: option.splits)

lemma root_append:
  assumes inv: "root_over_leaves mn mx h"
    and fresh: "\<forall>e\<in>set (entries (h ! 0)). child e \<noteq> Some r"
    and len: "length h \<le> length h'"
    and root: "h' ! 0 = (h ! 0)\<lparr>entries := entries (h ! 0) @ [\<lparr>bb = nbox, child = Some r, obj = None\<rparr>]\<rparr>"
    and same: "\<forall>b. b < length h \<longrightarrow> 0 < b \<longrightarrow> h' ! b = h ! b"
    and new: "0 < r" "r < length h'" "leaf_ok mn mx (h' ! r)" "computeBoundingBox (h' ! r) = Inr nbox"
  shows "root_over_leaves mn mx h'"
proof -
  have h0: "0 < length h" "\<not> leaf (h ! 0)" "distinct (map child (entries (h ! 0)))"
    and all: "\<forall>e\<in>set (entries (h ! 0)). leaf_child mn mx h e"
    using inv by (simp_all add: root_over_leaves_def list_all_iff)
  have old: "\<forall>e\<in>set (entries (h ! 0)). leaf_child mn mx h' e"
    using all leaf_child_same[OF _ len same] by blast
  have "leaf_child mn mx h' \<lparr>bb = nbox, child = Some r, obj = None\<rparr>"
    using new by (simp add: leaf_child_def)
  moreover have "0 < length h'"
    using new(2) by (cases h') auto
  moreover have "Some r \<notin> child ` set (entries (h ! 0))"
    using fresh by auto
  ultimately show ?thesis
    using h0 old root by (simp add: root_over_leaves_def list_all_iff)
qed

lemma root_split_grow:
  assumes inv: "root_over_leaves mn mx h"
    and cfg: "2 \<le> mn" "mn \<le> mx div 2"
    and over: "mx < int (length (entries (h ! 0)))" "int (length (entries (h ! 0))) \<le> mx + 1"
    and sp: "split_node h (Some 0) mn = Inr (h5, l2, r2)"
    and gr: "growRoot (t\<lparr>store := h5\<rparr>) (Some 0) r2 = Inr t2"
  shows "three_levels mn mx (store t2)"
proof -
  have h0: "0 < length h" "\<not> leaf (h ! 0)"
    and all: "\<forall>e\<in>set (entries (h ! 0)). leaf_child mn mx h e"
    using inv by (simp_all add: root_over_leaves_def list_all_iff)
  from split_node_lookup[OF h0(1) sp] obtain le re where
    s: "r2 = length h" "length h5 = length h + 1"
       "h5 ! 0 = (h ! 0)\<lparr>entries := le\<rparr>"
       "h5 ! length h = \<lparr>parent = parent (h ! 0), leaf = leaf (h ! 0), entries = re\<rparr>"
       "\<forall>b. b < length h \<longrightarrow> b \<noteq> 0 \<longrightarrow> h5 ! b = h ! b"
       "set le \<union> set re = set (entries (h ! 0))"
       "length le + length re = length (entries (h ! 0))"
       "0 \<le> mn \<longrightarrow> 2 * mn + 1 \<le> int (length (entries (h ! 0))) \<longrightarrow>
            mn \<le> int (length le) \<and> mn \<le> int (length re)"
    by blast
  have sizes: "mn \<le> int (length le)" "mn \<le> int (length re)"
    "int (length le) \<le> mx" "int (length re) \<le> mx"
    using s(7,8) over cfg by auto
  have sub: "set le \<subseteq> set (entries (h ! 0))" "set re \<subseteq> set (entries (h ! 0))"
    using s(6) by blast+
  have r: "0 < r2" "r2 < length (store (t\<lparr>store := h5\<rparr>))"
    using s(1,2) h0 by simp_all
  from growRoot_lookup[OF gr r] obtain box1 box2 where
    g: "computeBoundingBox (h5 ! 0) = Inr box1" "computeBoundingBox (h5 ! r2) = Inr box2"
       "length (store t2) = length h5 + 1"
       "store t2 ! 0 = \<lparr>parent = None, leaf = False,
           entries = [\<lparr>bb = box1, child = Some (length h5), obj = None\<rparr>,
                      \<lparr>bb = box2, child = Some r2, obj = None\<rparr>]\<rparr>"
       "store t2 ! r2 = (h5 ! r2)\<lparr>parent := Some 0\<rparr>"
       "store t2 ! length h5 = (h5 ! 0)\<lparr>parent := Some 0\<rparr>"
       "\<forall>b. b < length h5 \<longrightarrow> b \<noteq> 0 \<longrightarrow> b \<noteq> r2 \<longrightarrow> store t2 ! b = h5 ! b"
    by auto
  have same: "\<forall>b. b < length h \<longrightarrow> 0 < b \<longrightarrow> store t2 ! b = h ! b"
    using g(7) s(1,2,5) by simp
  have "length h \<le> length (store t2)"
    using g(3) s(2) by simp
  then have kids: "\<forall>e\<in>set (entries (h ! 0)). leaf_child mn mx (store t2) e"
    using all leaf_child_same[OF _ _ same] by blast
  have "list_all (leaf_child mn mx (store t2)) le" "list_all (leaf_child mn mx (store t2)) re"
    using kids sub by (auto simp: list_all_iff)
  then show ?thesis
    using g s(1,2,3,4) sizes h0
    by (simp add: three_levels_def inner_child_def in_bounds_def computeBoundingBox_def)
qed

lemma Insert_two_levels:
  assumes cfg: "2 \<le> MinChildren t" "MinChildren t \<le> MaxChildren t div 2"
    and inv: "two_levels (MinChildren t) (MaxChildren t) (store t)"
    and ins: "Insert t ob = Some (Inr t')"
  shows "two_levels (MinChildren t) (MaxChildren t) (store t')
     \<or> three_levels (MinChildren t) (MaxChildren t) (store t')"
proof -
  let ?h = "store t"
  let ?mn = "MinChildren t" and ?mx = "MaxChildren t"
  let ?res = "entries (?h ! 0)"
  let ?e = "\<lparr>bb = Bounds ob, child = None, obj = Some ob\<rparr>"
  have rol: "root_over_leaves ?mn ?mx ?h" and bound: "int (length ?res) \<le> ?mx"
    using inv by (simp_all add: two_levels_def)
  have h0: "0 < length ?h"
    using rol by (simp add: root_over_leaves_def)
  from ins obtain lf where cl: "chooseLeaf ?h (Some 0) ob = Some (Inr lf)"
    by (auto simp: Insert_def split: option.splits sum.splits)
  from chooseLeaf_two_levels[OF rol cl] obtain c where
    c: "c \<in> set ?res" "lf = child c"
    by blast
  have "leaf_child ?mn ?mx ?h c"
    using rol c(1) by (simp add: root_over_leaves_def list_all_iff)
  then obtain a where a: "child c = Some a" "0 < a" "a < length ?h"
    and lok: "leaf_ok ?mn ?mx (?h ! a)"
    by (auto simp: leaf_child_def split: option.splits)
  have lfa: "lf = Some a"
    using c(2) a(1) by simp
  from findChild_found[OF c(1) a(1)] obtain k where
    k: "k < length ?res" "findChild ?res (Some a) 0 = Some k" "child (?res ! k) = Some a"
    by blast
  let ?h1 = "append_entry ?h a ?e"
  have h1: "length ?h1 = length ?h" "?h1 ! 0 = ?h ! 0"
    "?h1 ! a = (?h ! a)\<lparr>entries := entries (?h ! a) @ [?e]\<rparr>"
    using a by simp_all
  have lok': "leaf (?h ! a)" "parent (?h ! a) = Some 0" "?mn \<le> int (length (entries (?h ! a)))"
    "int (length (entries (?h ! a))) \<le> ?mx" "list_all leafEntry (entries (?h ! a))"
    using lok by (simp_all add: leaf_ok_def in_bounds_def)
  have e_leaf: "leafEntry ?e"
    by (simp add: leafEntry_def)
  show ?thesis
  proof (cases "?mx < int (length (entries (?h1 ! a)))")
    case False
    have ge: "getEntry ?h1 (Some a) = Inr (Some (0, k))"
      using a h0 h1 lok'(2) k(2) by (intro getEntry_found) simp_all
    have adj: "adjustTree (t\<lparr>store := ?h1\<rparr>) (Some a) None =
        (case computeBoundingBox (?h1 ! a) of
           Inl err \<Rightarrow> Some (Inl err)
         | Inr box \<Rightarrow> Some (Inr (t\<lparr>store := set_bb ?h1 0 k box\<rparr>, Some 0, None)))"
      using a h1(3) lok'(2)
      by (subst adjustTree.simps) (simp add: ge deref_def adjustTree_root Let_def split: sum.splits)
    from ins cl lfa False adj obtain box where
      box: "computeBoundingBox (?h1 ! a) = Inr box"
      and t': "store t' = set_bb ?h1 0 k box"
      by (auto simp: Insert_def Let_def split: sum.splits)
    let ?h2 = "set_bb ?h1 0 k box"
    have "root_over_leaves ?mn ?mx ?h2"
    proof (rule root_refresh[OF rol k(1) k(3)])
      show "length ?h \<le> length ?h2"
        by simp
      show "?h2 ! 0 = (?h ! 0)\<lparr>entries := ?res[k := (?res ! k)\<lparr>bb := box\<rparr>]\<rparr>"
        using h0 h1 by simp
      show "\<forall>b. b < length ?h \<longrightarrow> b \<noteq> 0 \<longrightarrow> b \<noteq> a \<longrightarrow> ?h2 ! b = ?h ! b"
        by simp
      show "leaf_ok ?mn ?mx (?h2 ! a)"
        using a h1 lok' False e_leaf by (simp add: leaf_ok_def in_bounds_def)
      show "computeBoundingBox (?h2 ! a) = Inr box"
        using a box by simp
    qed
    moreover have "int (length (entries (?h2 ! 0))) \<le> ?mx"
      using h0 h1 bound by simp
    ultimately show ?thesis
      using t' by (simp add: two_levels_def)
  next
    case True
    from ins cl lfa True obtain h2 l r where
      sp: "split_node ?h1 (Some a) ?mn = Inr (h2, l, r)"
      by (auto simp: Insert_def Let_def split: sum.splits)
    have a1: "a < length ?h1"
      using a by simp
    from split_node_lookup[OF a1 sp] obtain le re where
      s: "l = a" "r = length ?h" "length h2 = length ?h + 1"
         "h2 ! a = (?h1 ! a)\<lparr>entries := le\<rparr>"
         "h2 ! length ?h = \<lparr>parent = parent (?h1 ! a), leaf = leaf (?h1 ! a), entries = re\<rparr>"
         "\<forall>b. b < length ?h \<longrightarrow> b \<noteq> a \<longrightarrow> h2 ! b = ?h1 ! b"
         "set le \<union> set re = set (entries (?h1 ! a))"
         "length le + length re = length (entries (?h1 ! a))"
         "0 \<le> ?mn \<longrightarrow> 2 * ?mn + 1 \<le> int (length (entries (?h1 ! a))) \<longrightarrow>
            ?mn \<le> int (length le) \<and> ?mn \<le> int (length re)"
      by auto
    have sizes: "?mn \<le> int (length le)" "?mn \<le> int (length re)"
      "int (length le) \<le> ?mx" "int (length re) \<le> ?mx"
      using s(8,9) True cfg lok'(4) h1(3) by auto
    have "set le \<union> set re = insert ?e (set (entries (?h ! a)))"
      using s(7) h1(3) by simp
    then have sub: "set le \<subseteq> insert ?e (set (entries (?h ! a)))"
      "set re \<subseteq> insert ?e (set (entries (?h ! a)))"
      by blast+
    have leaves: "list_all leafEntry le" "list_all leafEntry re"
      using sub lok'(5) e_leaf by (auto simp: list_all_iff)
    have h2_0: "h2 ! 0 = ?h ! 0"
      using s(6) a h0 h1(2) by simp
    have h2_a: "h2 ! a = \<lparr>parent = Some 0, leaf = True, entries = le\<rparr>"
      using s(4) h1(3) lok'(1,2) by simp
    have h2_r: "h2 ! r = \<lparr>parent = Some 0, leaf = True, entries = re\<rparr>"
      using s(2,5) h1(3) lok'(1,2) by simp
    have ge: "getEntry h2 (Some a) = Inr (Some (0, k))"
      using a s(3) h2_0 h2_a k(2) by (intro getEntry_found) simp_all
    have ins2: "(case adjustTree (t\<lparr>store := h2\<rparr>) (Some a) (Some r) of
          None \<Rightarrow> None
        | Some (Inl err) \<Rightarrow> Some (Inl err)
        | Some (Inr (tree', rootp, None)) \<Rightarrow> Some (Inr (tree'\<lparr>size_tree := size_tree tree' + 1\<rparr>))
        | Some (Inr (tree', rootp, Some splitRoot)) \<Rightarrow>
            (case growRoot tree' rootp splitRoot of
               Inl err \<Rightarrow> Some (Inl err)
             | Inr tree'' \<Rightarrow> Some (Inr (tree''\<lparr>size_tree := size_tree tree'' + 1\<rparr>))))
        = Some (Inr t')"
      using ins cl lfa True sp s(1) by (simp add: Insert_def Let_def)
    have r2: "r < length h2" "r \<noteq> 0" "a \<noteq> 0" "a < length h2" "0 < length h2"
      using s(2,3) h0 a by simp_all
    have unfold: "adjustTree (t\<lparr>store := h2\<rparr>) (Some a) (Some r) =
        (case computeBoundingBox (h2 ! a) of
           Inl err \<Rightarrow> Some (Inl err)
         | Inr box \<Rightarrow>
             (case computeBoundingBox (h2 ! r) of
                Inl err \<Rightarrow> Some (Inl err)
              | Inr nbox \<Rightarrow>
                  (if ?mx < int (length (entries (append_entry (set_bb h2 0 k box) 0
                                  \<lparr>bb = nbox, child = Some r, obj = None\<rparr> ! 0)))
                   then (case split_node (append_entry (set_bb h2 0 k box) 0
                                  \<lparr>bb = nbox, child = Some r, obj = None\<rparr>) (Some 0) ?mn of
                           Inl err \<Rightarrow> Some (Inl err)
                         | Inr (h5, l2, r2) \<Rightarrow> adjustTree (t\<lparr>store := h5\<rparr>) (Some l2) (Some r2))
                   else Some (Inr (t\<lparr>store := append_entry (set_bb h2 0 k box) 0
                                  \<lparr>bb = nbox, child = Some r, obj = None\<rparr>\<rparr>, Some 0, None)))))"
      using r2
      by (subst adjustTree.simps)
         (simp add: ge deref_def Let_def adjustTree_root h2_a split: sum.splits)
    from ins2 obtain box nbox where
      box: "computeBoundingBox (h2 ! a) = Inr box" "computeBoundingBox (h2 ! r) = Inr nbox"
      unfolding unfold by (auto split: sum.splits)
    let ?h3 = "set_bb h2 0 k box"
    let ?h4 = "append_entry ?h3 0 \<lparr>bb = nbox, child = Some r, obj = None\<rparr>"
    have rol3: "root_over_leaves ?mn ?mx ?h3"
    proof (rule root_refresh[OF rol k(1) k(3)])
      show "length ?h \<le> length ?h3"
        using s(3) by simp
      show "?h3 ! 0 = (?h ! 0)\<lparr>entries := ?res[k := (?res ! k)\<lparr>bb := box\<rparr>]\<rparr>"
        using h0 s(3) h2_0 by simp
      show "\<forall>b. b < length ?h \<longrightarrow> b \<noteq> 0 \<longrightarrow> b \<noteq> a \<longrightarrow> ?h3 ! b = ?h ! b"
        using s(6) by simp
      show "leaf_ok ?mn ?mx (?h3 ! a)"
        using a h2_a sizes leaves by (simp add: leaf_ok_def in_bounds_def)
      show "computeBoundingBox (?h3 ! a) = Inr box"
        using a box by simp
    qed
    have h3_0: "?h3 ! 0 = (?h ! 0)\<lparr>entries := ?res[k := (?res ! k)\<lparr>bb := box\<rparr>]\<rparr>"
      using h0 s(3) h2_0 by simp
    have old_kids: "\<forall>x\<in>set ?res. child x \<noteq> Some r"
    proof
      fix x assume "x \<in> set ?res"
      then have "leaf_child ?mn ?mx ?h x"
        using rol by (simp add: root_over_leaves_def list_all_iff)
      then show "child x \<noteq> Some r"
        using s(2) by (auto simp: leaf_child_def split: option.splits)
    qed
    have rol4: "root_over_leaves ?mn ?mx ?h4"
    proof (rule root_append[OF rol3, of r])
      have mc: "map child (entries (?h3 ! 0)) = map child ?res"
        using map_child_set_bb[OF k(1), of box] h3_0 by simp
      show "\<forall>x\<in>set (entries (?h3 ! 0)). child x \<noteq> Some r"
      proof
        fix x
        assume "x \<in> set (entries (?h3 ! 0))"
        then have "child x \<in> set (map child (entries (?h3 ! 0)))"
          by (simp only: set_map image_eqI)
        then have "child x \<in> set (map child ?res)"
          unfolding mc .
        then obtain y where "y \<in> set ?res" "child y = child x"
          by auto
        with old_kids show "child x \<noteq> Some r"
          by metis
      qed
      show "length ?h3 \<le> length ?h4"
        by simp
      show "?h4 ! 0 = (?h3 ! 0)\<lparr>entries := entries (?h3 ! 0) @ [\<lparr>bb = nbox, child = Some r, obj = None\<rparr>]\<rparr>"
        using h0 s(3) by simp
      show "\<forall>b. b < length ?h3 \<longrightarrow> 0 < b \<longrightarrow> ?h4 ! b = ?h3 ! b"
        by simp
      show "0 < r" "r < length ?h4"
        using s(2,3) h0 by simp_all
      show "leaf_ok ?mn ?mx (?h4 ! r)"
        using s(2) h0 h2_r sizes leaves by (simp add: leaf_ok_def in_bounds_def)
      show "computeBoundingBox (?h4 ! r) = Inr nbox"
        using s(2) h0 box by simp
    qed
    have len4: "length (entries (?h4 ! 0)) = length ?res + 1"
      using h0 s(3) h2_0 by simp
    have r3: "r < length ?h3" "r \<noteq> 0"
      using s(2,3) h0 by simp_all
    have h3_r: "?h3 ! r = h2 ! r"
      using r3 by simp
    show ?thesis
    proof (cases "?mx < int (length (entries (?h4 ! 0)))")
      case False
      have "adjustTree (t\<lparr>store := h2\<rparr>) (Some a) (Some r)
            = Some (Inr (t\<lparr>store := ?h4\<rparr>, Some 0, None))"
        unfolding unfold using box False by simp
      with ins2 have "store t' = ?h4"
        by auto
      then show ?thesis
        using rol4 False by (simp add: two_levels_def)
    next
      case over: True
      have step: "adjustTree (t\<lparr>store := h2\<rparr>) (Some a) (Some r)
            = (case split_node ?h4 (Some 0) ?mn of
                 Inl err \<Rightarrow> Some (Inl err)
               | Inr (h5, l2, r2) \<Rightarrow> adjustTree (t\<lparr>store := h5\<rparr>) (Some l2) (Some r2))"
        unfolding unfold using box over by simp
      from ins2 step obtain h5 l2 r2 where
        sp2: "split_node ?h4 (Some 0) ?mn = Inr (h5, l2, r2)"
        by (auto split: sum.splits)
      have pos4: "0 < length ?h4"
        using h0 s(3) by simp
      from split_node_lookup[OF pos4 sp2] have l2: "l2 = 0"
        by blast
      from ins2 step sp2 l2 obtain t2 where
        gr: "growRoot (t\<lparr>store := h5\<rparr>) (Some 0) r2 = Inr t2"
        and t': "store t' = store t2"
        by (auto simp: adjustTree_root split: sum.splits)
      have "int (length (entries (?h4 ! 0))) \<le> ?mx + 1"
        using len4 bound by simp
      from root_split_grow[OF rol4 cfg over this _ gr] sp2 l2
      have "three_levels ?mn ?mx (store t2)"
        by simp
      then show ?thesis
        using t' by simp
    qed
  qed
qed

lemma chooseLeaf_step:
  assumes "b < length h" and "\<not> leaf (h ! b)" and "chooseLeaf h (Some b) ob = Some (Inr lf)"
  shows "\<exists>c\<in>set (entries (h ! b)). chooseLeaf h (child c) ob = Some (Inr lf)"
proof -
  from assms obtain chosen where
    ch: "chooseEntry ob (entries (h ! b)) MaxFloat64 None = Inr chosen"
    and rest: "chooseLeaf h (Option.bind chosen child) ob = Some (Inr lf)"
    by (subst (asm) chooseLeaf.simps) (auto simp: deref_def split: sum.splits)
  from rest obtain c where c: "chosen = Some c"
    by (cases chosen) (simp_all add: chooseLeaf_nil)
  have "c \<in> set (entries (h ! b))"
    using ch c by (intro chooseEntry_mem) simp
  then show ?thesis
    using rest c by (intro bexI[of _ c]) simp_all
qed

lemma chooseLeaf_three_levels:
  assumes inv: "three_levels mn mx h" and cl: "chooseLeaf h (Some 0) ob = Some (Inr lf)"
  shows "\<exists>a. lf = Some a \<and> 0 < a \<and> a < length h \<and> leaf_ok mn mx (h ! a)
           \<and> (\<forall>e\<in>set (entries (h ! 0)). child e \<noteq> Some a)"
proof -
  have h0: "0 < length h" "\<not> leaf (h ! 0)"
    and all: "\<forall>e\<in>set (entries (h ! 0)). inner_child mn mx h e"
    using inv by (simp_all add: three_levels_def list_all_iff)
  from chooseLeaf_step[OF h0 cl] obtain c where
    c: "c \<in> set (entries (h ! 0))" "chooseLeaf h (child c) ob = Some (Inr lf)"
    by blast
  have "inner_child mn mx h c"
    using all c(1) by simp
  then obtain b where b: "child c = Some b" "b < length h" "\<not> leaf (h ! b)"
    and kids: "\<forall>e\<in>set (entries (h ! b)). leaf_child mn mx h e"
    by (auto simp: inner_child_def list_all_iff split: option.splits)
  from chooseLeaf_step[OF b(2,3)] c(2) b(1) obtain c2 where
    c2: "c2 \<in> set (entries (h ! b))" "chooseLeaf h (child c2) ob = Some (Inr lf)"
    by auto
  have "leaf_child mn mx h c2"
    using kids c2(1) by simp
  then obtain a where a: "child c2 = Some a" "0 < a" "a < length h" "leaf_ok mn mx (h ! a)"
    by (auto simp: leaf_child_def split: option.splits)
  have lf: "lf = Some a"
    using c2(2) a chooseLeaf_at_leaf[of a h ob] by (simp add: leaf_ok_def)
  have "child e \<noteq> Some a" if "e \<in> set (entries (h ! 0))" for e
  proof -
    have "inner_child mn mx h e"
      using all that by simp
    then show ?thesis
      using a(4) by (auto simp: inner_child_def leaf_ok_def split: option.splits)
  qed
  with lf a show ?thesis
    by blast
qed

lemma adjustTree_no_entry:
  assumes "a \<noteq> 0" and "getEntry (store t) (Some a) = Inr None"
  shows "\<exists>err. adjustTree t (Some a) nn = Some (Inl err)"
  using assms by (subst adjustTree.simps) (simp split: sum.splits)

lemma Insert_three_levels:
  assumes inv: "three_levels (MinChildren t) (MaxChildren t) (store t)"
  shows "Insert t ob \<noteq> Some (Inr t')"
proof
  assume ins: "Insert t ob = Some (Inr t')"
  let ?h = "store t"
  let ?mn = "MinChildren t" and ?mx = "MaxChildren t"
  let ?e = "\<lparr>bb = Bounds ob, child = None, obj = Some ob\<rparr>"
  have h0: "0 < length ?h"
    using inv by (simp add: three_levels_def)
  from ins obtain lf where cl: "chooseLeaf ?h (Some 0) ob = Some (Inr lf)"
    by (auto simp: Insert_def split: option.splits sum.splits)
  from chooseLeaf_three_levels[OF inv cl] obtain a where
    a: "lf = Some a" "0 < a" "a < length ?h" "leaf_ok ?mn ?mx (?h ! a)"
    and none: "\<forall>e\<in>set (entries (?h ! 0)). child e \<noteq> Some a"
    by blast
  let ?h1 = "append_entry ?h a ?e"
  have par: "parent (?h ! a) = Some 0"
    using a(4) by (simp add: leaf_ok_def)
  have h1: "length ?h1 = length ?h" "?h1 ! 0 = ?h ! 0" "parent (?h1 ! a) = Some 0"
    using a par by simp_all
  show False
  proof (cases "?mx < int (length (entries (?h1 ! a)))")
    case False
    have "getEntry (store (t\<lparr>store := ?h1\<rparr>)) (Some a) = Inr None"
      using a h0 h1 none by (intro getEntry_missing) simp_all
    from adjustTree_no_entry[OF _ this, of None] a(2) obtain err where
      "adjustTree (t\<lparr>store := ?h1\<rparr>) (Some a) None = Some (Inl err)"
      by auto
    with ins cl a(1) False show False
      by (simp add: Insert_def Let_def)
  next
    case True
    from ins cl a(1) True obtain h2 l r where
      sp: "split_node ?h1 (Some a) ?mn = Inr (h2, l, r)"
      by (auto simp: Insert_def Let_def split: sum.splits)
    have a1: "a < length ?h1"
      using a by simp
    from split_node_lookup[OF a1 sp] obtain le where
      s: "l = a" "length h2 = length ?h1 + 1" "h2 ! a = (?h1 ! a)\<lparr>entries := le\<rparr>"
         "\<forall>b. b < length ?h1 \<longrightarrow> b \<noteq> a \<longrightarrow> h2 ! b = ?h1 ! b"
      by blast
    have "h2 ! 0 = ?h ! 0"
      using s(4) a h0 h1 by simp
    then have "getEntry (store (t\<lparr>store := h2\<rparr>)) (Some a) = Inr None"
      using a h0 h1 s(2,3) none by (intro getEntry_missing) simp_all
    from adjustTree_no_entry[OF _ this, of "Some r"] a(2) obtain err where
      "adjustTree (t\<lparr>store := h2\<rparr>) (Some a) (Some r) = Some (Inl err)"
      by auto
    with ins cl a(1) True sp s(1) show False
      by (simp add: Insert_def Let_def)
  qed
qed

section \<open>The structural invariant\<close>

lemma reach_inv_NewTree:
  assumes "2 \<le> mn" and "mn \<le> mx div 2"
  shows "reach_inv (NewTree d mn mx)"
proof -
  have "0 \<le> mx"
    using assms by linarith
  then show ?thesis
    using assms by (simp add: reach_inv_def NewTree_def one_level_def)
qed

lemma reach_inv_Insert:
  assumes "reach_inv t" and "Insert t ob = Some (Inr t')"
  shows "reach_inv t'"
proof -
  have cfg: "2 \<le> MinChildren t" "MinChildren t \<le> MaxChildren t div 2"
    using assms(1) by (simp_all add: reach_inv_def)
  have same: "MinChildren t' = MinChildren t" "MaxChildren t' = MaxChildren t"
    using Insert_config[OF assms(2)] by simp_all
  consider (one) "one_level (MaxChildren t) (store t)"
    | (two) "two_levels (MinChildren t) (MaxChildren t) (store t)"
    | (three) "three_levels (MinChildren t) (MaxChildren t) (store t)"
    using assms(1) by (auto simp: reach_inv_def)
  then show ?thesis
  proof cases
    case one
    from Insert_one_level[OF cfg one assms(2)] show ?thesis
      using cfg same by (auto simp: reach_inv_def)
  next
    case two
    from Insert_two_levels[OF cfg two assms(2)] show ?thesis
      using cfg same by (auto simp: reach_inv_def)
  next
    case three
    from Insert_three_levels[OF three] assms(2) show ?thesis
      by blast
  qed
qed

lemma reach_inv_run:
  assumes "run ops (t0, n0, k0) = Some (Inr (t, n, k))" and "reach_inv t0"
  shows "reach_inv t"
  using assms
proof (induction ops arbitrary: t0 n0 k0)
  case Nil
  then show ?case by simp
next
  case (Cons a ops)
  show ?case
  proof (cases a)
    case (OpInsert ob)
    with Cons.prems(1) obtain t1 where ins: "Insert t0 ob = Some (Inr t1)"
      and rest: "run ops (t1, n0 + 1, k0) = Some (Inr (t, n, k))"
      by (auto split: option.splits sum.splits)
    from reach_inv_Insert[OF Cons.prems(2) ins] show ?thesis
      by (rule Cons.IH[OF rest])
  next
    case (OpDelete ob)
    with Cons.prems(1) have rest: "run ops (t0, n0, k0) = Some (Inr (t, n, k))"
      by (simp add: Delete_def)
    show ?thesis
      by (rule Cons.IH[OF rest Cons.prems(2)])
  qed
qed

lemma leaf_child_subtree:
  assumes "leaf_child mn mx h e"
  shows "case deref h (child e) of
           Inl err \<Rightarrow> False
         | Inr c \<Rightarrow> in_bounds mn mx c \<and> computeBoundingBox c = Inr (bb e)
                    \<and> subtree_ok mn mx h (child e) (Suc 0)"
  using assms by (auto simp: leaf_child_def leaf_ok_def deref_def split: option.splits)

lemma inner_child_subtree:
  assumes "inner_child mn mx h e"
  shows "case deref h (child e) of
           Inl err \<Rightarrow> False
         | Inr c \<Rightarrow> in_bounds mn mx c \<and> computeBoundingBox c = Inr (bb e)
                    \<and> subtree_ok mn mx h (child e) (Suc (Suc 0))"
proof -
  from assms obtain a where a: "child e = Some a" "a < length h" "\<not> leaf (h ! a)"
    "in_bounds mn mx (h ! a)" "computeBoundingBox (h ! a) = Inr (bb e)"
    and kids: "\<forall>x\<in>set (entries (h ! a)). leaf_child mn mx h x"
    by (auto simp: inner_child_def list_all_iff split: option.splits)
  have "list_all
          (\<lambda>x. case deref h (child x) of
                 Inl err \<Rightarrow> False
               | Inr c \<Rightarrow> in_bounds mn mx c \<and> computeBoundingBox c = Inr (bb x)
                          \<and> subtree_ok mn mx h (child x) (Suc 0))
          (entries (h ! a))"
    using kids leaf_child_subtree[of mn mx h]
    by (simp add: list_all_iff del: subtree_ok.simps)
  then have "subtree_ok mn mx h (Some a) (Suc (Suc 0))"
    using a by (subst subtree_ok.simps) (simp add: deref_def del: subtree_ok.simps)
  then show ?thesis
    using a by (simp add: deref_def del: subtree_ok.simps)
qed

lemma reach_inv_structural:
  assumes "reach_inv t"
  shows "\<exists>lv. structural_invariant t lv"
proof -
  let ?mn = "MinChildren t" and ?mx = "MaxChildren t" and ?h = "store t"
  consider (one) "one_level ?mx ?h" | (two) "two_levels ?mn ?mx ?h" | (three) "three_levels ?mn ?mx ?h"
    using assms by (auto simp: reach_inv_def)
  then show ?thesis
  proof cases
    case one
    then have "subtree_ok ?mn ?mx ?h (Some 0) (Suc 0)"
      by (simp add: one_level_def deref_def)
    then show ?thesis
      unfolding structural_invariant_def by blast
  next
    case two
    then have "subtree_ok ?mn ?mx ?h (Some 0) (Suc (Suc 0))"
      using leaf_child_subtree[of ?mn ?mx ?h]
      by (subst subtree_ok.simps)
         (simp add: two_levels_def root_over_leaves_def deref_def list_all_iff
            del: subtree_ok.simps)
    then show ?thesis
      unfolding structural_invariant_def by blast
  next
    case three
    then have "subtree_ok ?mn ?mx ?h (Some 0) (Suc (Suc (Suc 0)))"
      using inner_child_subtree[of ?mn ?mx ?h]
      by (subst subtree_ok.simps)
         (simp add: three_levels_def deref_def list_all_iff del: subtree_ok.simps)
    then show ?thesis
      unfolding structural_invariant_def by blast
  qed
qed

text \<open>
  C8.  After any sequence of \<open>Insert\<close> and \<open>Delete\<close> calls that all returned, on a new tree
  with \<open>2 \<le> MinChildren \<le> MaxChildren / 2\<close>, the structural invariant holds for some
  number of levels: the leaves are all that many levels down, every node but the root
  holds between \<open>MinChildren\<close> and \<open>MaxChildren\<close> entries, and every entry's box is its
  object's bounds or the box computed from its child's entries.
\<close>

theorem structural_invariant_reachable:
  assumes "2 \<le> mn" and "mn \<le> mx div 2"
    and "run ops (NewTree d mn mx, 0, 0) = Some (Inr (t, n, k))"
  shows "\<exists>lv. structural_invariant t lv"
  using reach_inv_structural[OF reach_inv_run[OF assms(3) reach_inv_NewTree[OF assms(1,2)]]] .

theorem structural_invariant_reachable_witness:
  "(2::int) \<le> 2 \<and> (2::int) \<le> 4 div 2
   \<and> run (map OpInsert (map pt [0, 1, 2, 3, 4, 5, 6, 7, 8, 9, 10, 11, 12, 13])) (NewTree 1 2 4, 0, 0)
       = Some (Inr (t14, 14, 0))
   \<and> (\<exists>lv. structural_invariant t14 lv) \<and> structural_invariant t14 3"
proof -
  have 1: "(2::int) \<le> 2" and 2: "(2::int) \<le> 4 div 2"
    by simp_all
  have 3: "structural_invariant t14 3"
    by (simp add: structural_invariant_def data_defs deref_def in_bounds_def leafEntry_def
          computeBoundingBox_def boundingBox_def rect_union_def eval_nat_numeral)
  show ?thesis
    using structural_invariant_reachable[OF 1 2 run_t14] 1 2 3 run_t14 by simp
qed

section \<open>What Depth returns on two levels\<close>

text \<open>On every root over leaves, \<open>Depth\<close> is the number of the root's entries.\<close>

lemma nodeDepthSum_leaves:
  assumes "\<forall>e\<in>set es. \<exists>a. child e = Some a \<and> a < length h \<and> leaf (h ! a)"
  shows "nodeDepthSum h (map child es) = Some (Inr (int (length es)))"
  using assms
proof (induction es)
  case Nil
  then show ?case
    by (subst nodeDepthSum.simps) simp
next
  case (Cons e es)
  then obtain a where "child e = Some a" "a < length h" "leaf (h ! a)"
    by auto
  moreover have "nodeDepthSum h (map child es) = Some (Inr (int (length es)))"
    using Cons by simp
  ultimately show ?case
    by (subst nodeDepthSum.simps) (simp add: deref_def)
qed

lemma Depth_two_levels:
  assumes "two_levels mn mx (store t)"
  shows "Depth t = Some (Inr (int (length (entries (store t ! 0)))))"
proof -
  have h0: "0 < length (store t)" "\<not> leaf (store t ! 0)"
    and all: "\<forall>e\<in>set (entries (store t ! 0)). leaf_child mn mx (store t) e"
    using assms by (simp_all add: two_levels_def root_over_leaves_def list_all_iff)
  have "\<forall>e\<in>set (entries (store t ! 0)).
          \<exists>a. child e = Some a \<and> a < length (store t) \<and> leaf (store t ! a)"
    using all by (auto simp: leaf_child_def leaf_ok_def split: option.splits)
  from nodeDepthSum_leaves[OF this] h0 show ?thesis
    unfolding Depth_def nodeDepth_def
    by (subst nodeDepthSum.simps) (simp add: deref_def nodeDepthSum.simps[of _ "[]"])
qed

section \<open>The seeds when some pair wastes more than -1\<close>

text \<open>
  When at least one pair of entries has a wasted space above the start value -1, the
  pair \<open>pickSeeds\<close> returns is a pair of distinct entries of greatest wasted space.
\<close>

lemma pickSeedsInner_inv:
  assumes "pickSeedsInner e1 i es j st = Inr st'"
    and "e1 = all ! i" and "es = drop (i + j + 1) all"
    and "seeds_inv all S st"
  shows "seeds_inv all (S \<union> {(i, b) |b. i + j + 1 \<le> b \<and> b < length all}) st'"
  using assms
proof (induction es arbitrary: j S st)
  case Nil
  then have "length all \<le> i + j + 1"
    by simp
  then have e: "{(i, b) |b. i + j + 1 \<le> b \<and> b < length all} = {}"
    by auto
  show ?case
    unfolding e using Nil.prems by simp
next
  case (Cons e2 es)
  obtain mx l r where st: "st = (mx, l, r)"
    by (cases st)
  have lt: "i + j + 1 < length all"
    using Cons.prems(3) by (metis drop_eq_Nil2 list.distinct(1) not_le_imp_less)
  have e2: "e2 = all ! (i + j + 1)" and es: "es = drop (i + (j + 1) + 1) all"
    using Cons.prems(3) lt
    by (metis Cons_nth_drop_Suc list.inject, metis Cons_nth_drop_Suc list.inject Suc_eq_plus1 add.assoc)
  from Cons.prems(1) st obtain b where b: "boundingBox (bb e1) (bb e2) = Inr b"
    by (auto split: sum.splits)
  then have "b = rect_union (bb e1) (bb e2)"
    by (auto simp: boundingBox_def split: if_splits)
  then have d: "size_rect b - size_rect (bb e1) - size_rect (bb e2)
      = wastedSpace (bb (all ! i)) (bb (all ! (i + j + 1)))"
    using Cons.prems(2) e2 by (simp add: wastedSpace_def)
  define d0 where "d0 = wastedSpace (bb (all ! i)) (bb (all ! (i + j + 1)))"
  define st1 where "st1 = (if d0 > mx then (d0, i, j + i + 1) else (mx, l, r))"
  have step: "pickSeedsInner e1 i es (j + 1) st1 = Inr st'"
    using Cons.prems(1) st b d by (auto simp: Let_def st1_def d0_def split: if_splits)
  have inv0: "(\<forall>(a, b)\<in>S. wastedSpace (bb (all ! a)) (bb (all ! b)) \<le> mx)"
    "(mx = - 1 \<and> l = 0 \<and> r = 0)
       \<or> (- 1 < mx \<and> (l, r) \<in> S \<and> wastedSpace (bb (all ! l)) (bb (all ! r)) = mx)"
    using Cons.prems(4) st by (simp_all add: seeds_inv_def)
  have inv1: "seeds_inv all (S \<union> {(i, i + j + 1)}) st1"
  proof (cases "d0 > mx")
    case True
    then show ?thesis
      using inv0 by (fastforce simp: seeds_inv_def st1_def d0_def add.commute)
  next
    case False
    then show ?thesis
      using inv0 by (auto simp: seeds_inv_def st1_def d0_def)
  qed
  have "S \<union> {(i, i + j + 1)} \<union> {(i, b) |b. i + (j + 1) + 1 \<le> b \<and> b < length all}
      = S \<union> {(i, b) |b. i + j + 1 \<le> b \<and> b < length all}"
    using lt by (auto simp: Suc_le_eq le_less)
  with Cons.IH[OF step Cons.prems(2) es inv1] show ?case
    by simp
qed

lemma pickSeedsOuter_inv:
  assumes "pickSeedsOuter es i st = Inr st'" and "es = drop i all" and "seeds_inv all S st"
  shows "seeds_inv all (S \<union> {(a, b). i \<le> a \<and> a < b \<and> b < length all}) st'"
  using assms
proof (induction es arbitrary: i S st)
  case Nil
  then have "length all \<le> i"
    by simp
  then have e: "{(a, b). i \<le> a \<and> a < b \<and> b < length all} = {}"
    by auto
  show ?case
    unfolding e using Nil.prems by simp
next
  case (Cons e1 es)
  have lt: "i < length all"
    using Cons.prems(2) by (metis drop_eq_Nil2 list.distinct(1) not_le_imp_less)
  have e1: "e1 = all ! i" and es: "es = drop (i + 1) all"
    using Cons.prems(2) lt
    by (metis Cons_nth_drop_Suc list.inject, metis Cons_nth_drop_Suc list.inject Suc_eq_plus1)
  from Cons.prems(1) obtain st1 where
    inner: "pickSeedsInner e1 i es 0 st = Inr st1"
    and rest: "pickSeedsOuter es (i + 1) st1 = Inr st'"
    by (auto split: sum.splits)
  have "es = drop (i + 0 + 1) all"
    using es by simp
  from pickSeedsInner_inv[OF inner e1 this Cons.prems(3)]
  have inv1: "seeds_inv all (S \<union> {(i, b) |b. i + 1 \<le> b \<and> b < length all}) st1"
    by simp
  have "S \<union> {(i, b) |b. i + 1 \<le> b \<and> b < length all}
          \<union> {(a, b). i + 1 \<le> a \<and> a < b \<and> b < length all}
      = S \<union> {(a, b). i \<le> a \<and> a < b \<and> b < length all}"
    by (auto simp: Suc_le_eq le_less)
  with Cons.IH[OF rest es inv1] show ?case
    by simp
qed

lemma pickSeeds_max:
  assumes "pickSeeds nd = Inr (l, r)"
    and "a0 < b0" and "b0 < length (entries nd)"
    and "- 1 < wastedSpace (bb (entries nd ! a0)) (bb (entries nd ! b0))"
  shows "l < r \<and> r < length (entries nd)
     \<and> (\<forall>a b. a < b \<and> b < length (entries nd) \<longrightarrow>
           wastedSpace (bb (entries nd ! a)) (bb (entries nd ! b))
           \<le> wastedSpace (bb (entries nd ! l)) (bb (entries nd ! r)))"
proof -
  let ?es = "entries nd"
  from assms(1) obtain mx where run: "pickSeedsOuter ?es 0 (- 1, 0, 0) = Inr (mx, l, r)"
    by (auto simp: pickSeeds_def split: sum.splits)
  have "seeds_inv ?es {} (- 1, 0, 0)"
    by (simp add: seeds_inv_def)
  from pickSeedsOuter_inv[OF run _ this]
  have inv: "seeds_inv ?es {(a, b). a < b \<and> b < length ?es} (mx, l, r)"
    by simp
  then have all: "\<forall>a b. a < b \<and> b < length ?es \<longrightarrow> wastedSpace (bb (?es ! a)) (bb (?es ! b)) \<le> mx"
    by (auto simp: seeds_inv_def)
  then have "- 1 < mx"
    using assms(2,3,4) by fastforce
  then have "l < r" "r < length ?es" "wastedSpace (bb (?es ! l)) (bb (?es ! r)) = mx"
    using inv by (auto simp: seeds_inv_def)
  with all show ?thesis
    by simp
qed

end
